theory Spec2Isabelle
  imports Main
begin

section \<open>Strings of the host language\<close>

text \<open>
  The four pipeline stages of \<^verbatim>\<open>utils/html.ts\<close> are functions from strings to strings.
  A string of the host language is a sequence of code units; the model uses \<^typ>\<open>string\<close>,
  reading a \<^typ>\<open>char\<close> as a code unit below 256 (the Latin-1 range, which holds every character
  of the source's own templates and patterns).  The character predicates below are the host's,
  restricted to that range.
\<close>

definition code :: "char \<Rightarrow> nat" where
  "code c = of_char c"

definition isWhiteSpace :: "char \<Rightarrow> bool" where
  \<comment> \<open>White space and line terminators: what \<^verbatim>\<open>\s\<close> matches and what \<^verbatim>\<open>trim\<close> strips.
     Below 256: TAB, LF, VT, FF, CR, SP, NBSP.\<close>
  "isWhiteSpace c = (code c = 9 \<or> code c = 10 \<or> code c = 11 \<or> code c = 12 \<or> code c = 13
      \<or> code c = 32 \<or> code c = 160)"

definition isDigit :: "char \<Rightarrow> bool" where
  \<comment> \<open>\<^verbatim>\<open>\d\<close>: the ten ASCII digits.\<close>
  "isDigit c = (48 \<le> code c \<and> code c \<le> 57)"

definition lower_code :: "nat \<Rightarrow> nat" where
  \<comment> \<open>\<^verbatim>\<open>String.prototype.toLowerCase\<close> on one code unit below 256: A-Z, and the Latin-1
     capitals (0xC0-0xDE without the multiplication sign 0xD7), move up by 32.\<close>
  "lower_code x =
     (if (65 \<le> x \<and> x \<le> 90) \<or> (192 \<le> x \<and> x \<le> 222 \<and> x \<noteq> 215) then x + 32 else x)"

definition toLowerCaseChar :: "char \<Rightarrow> char" where
  "toLowerCaseChar c = char_of (lower_code (code c))"

definition toLowerCase :: "string \<Rightarrow> string" where
  "toLowerCase s = map toLowerCaseChar s"

definition upper_code :: "nat \<Rightarrow> nat" where
  \<comment> \<open>The upper-casing inside the regular expression engine's Canonicalize (no unicode
     flag), on a code unit below 256: a code unit is left alone when upper-casing gives more
     than one code unit (sharp s) or takes a non-ASCII code unit to an ASCII one.  The result
     for 0xB5 and 0xFF lies above 255.\<close>
  "upper_code x =
     (if (97 \<le> x \<and> x \<le> 122) \<or> (224 \<le> x \<and> x \<le> 254 \<and> x \<noteq> 247) then x - 32
      else if x = 181 then 924
      else if x = 255 then 376
      else x)"

definition canonicalize :: "bool \<Rightarrow> char \<Rightarrow> nat" where
  \<comment> \<open>Canonicalize: the identity without the ignoreCase flag.\<close>
  "canonicalize ic c = (if ic then upper_code (code c) else code c)"

definition trim :: "string \<Rightarrow> string" where
  "trim s = rev (dropWhile isWhiteSpace (rev (dropWhile isWhiteSpace s)))"

fun starts_with :: "string \<Rightarrow> string \<Rightarrow> bool" where
  "starts_with s [] = True"
| "starts_with [] (p # ps) = False"
| "starts_with (a # s) (p # ps) = (a = p \<and> starts_with s ps)"

fun includes_str :: "string \<Rightarrow> string \<Rightarrow> bool" where
  \<comment> \<open>\<^verbatim>\<open>String.prototype.includes\<close>: the pattern occurs at some index.\<close>
  "includes_str [] p = starts_with [] p"
| "includes_str (a # s) p = (starts_with (a # s) p \<or> includes_str s p)"

section \<open>Regular expressions\<close>

text \<open>
  The stages are written with regular expression literals.  The model keeps them as syntax
  trees and runs them with a backtracking matcher in the style of the language standard:
  a matcher takes the state (captures so far, rest of the input) and returns the states in
  which it can end, in the order backtracking tries them.  The head of the list is the
  match the engine reports.
\<close>

datatype cclass = AnyChar | Space | Digit

fun in_class :: "cclass \<Rightarrow> char \<Rightarrow> bool" where
  "in_class AnyChar c = True"
| "in_class Space c = isWhiteSpace c"
| "in_class Digit c = isDigit c"

datatype regex =
    Str string
  | Cls cclass
  | Seq regex regex
  | Alt regex regex
  | Star regex
  | LazyStar regex
  | Group nat regex
  | NegLook regex

definition Opt :: "regex \<Rightarrow> regex" where
  \<comment> \<open>\<^verbatim>\<open>r?\<close>, greedy: first with \<^verbatim>\<open>r\<close>, then without.\<close>
  "Opt r = Alt r (Str [])"

definition Plus :: "regex \<Rightarrow> regex" where
  \<comment> \<open>\<^verbatim>\<open>r+\<close>, greedy: one \<^verbatim>\<open>r\<close>, then \<^verbatim>\<open>r*\<close>.\<close>
  "Plus r = Seq r (Star r)"

type_synonym captures = "(nat \<times> string) list"
type_synonym mstate = "captures \<times> string"

fun str_match :: "bool \<Rightarrow> string \<Rightarrow> string \<Rightarrow> bool" where
  "str_match ic [] s = True"
| "str_match ic (p # ps) [] = False"
| "str_match ic (p # ps) (a # s) = (canonicalize ic p = canonicalize ic a \<and> str_match ic ps s)"

function m :: "bool \<Rightarrow> regex \<Rightarrow> mstate \<Rightarrow> mstate list" where
  "m ic (Str p) (c, s) = (if str_match ic p s then [(c, drop (length p) s)] else [])"
| "m ic (Cls k) (c, s) = (case s of [] \<Rightarrow> [] | a # t \<Rightarrow> if in_class k a then [(c, t)] else [])"
| "m ic (Seq a b) (c, s) = concat (map (m ic b) (m ic a (c, s)))"
| "m ic (Alt a b) (c, s) = m ic a (c, s) @ m ic b (c, s)"
| "m ic (Star r) (c, s) =
     concat (map (\<lambda>y. if length (snd y) < length s then m ic (Star r) y else [])
                 (m ic r (c, s))) @ [(c, s)]"
| "m ic (LazyStar r) (c, s) =
     (c, s) # concat (map (\<lambda>y. if length (snd y) < length s then m ic (LazyStar r) y else [])
                          (m ic r (c, s)))"
| "m ic (Group n r) (c, s) =
     map (\<lambda>y. ((n, take (length s - length (snd y)) s) # fst y, snd y)) (m ic r (c, s))"
| "m ic (NegLook r) (c, s) = (if m ic r (c, s) = [] then [(c, s)] else [])"
  by pat_completeness auto
termination
  by (relation "inv_image (less_than <*lex*> less_than) (\<lambda>(ic, r, c, s). (size r, length s))") auto

declare m.simps [simp del]

record rmatch =
  index :: nat
  matched :: string
  groups :: captures

fun exec_from :: "bool \<Rightarrow> regex \<Rightarrow> nat \<Rightarrow> string \<Rightarrow> rmatch option" where
  "exec_from ic r i s =
     (case m ic r ([], s) of
        y # _ \<Rightarrow> Some \<lparr>index = i, matched = take (length s - length (snd y)) s, groups = fst y\<rparr>
      | [] \<Rightarrow> (case s of [] \<Rightarrow> None | _ # t \<Rightarrow> exec_from ic r (Suc i) t))"

declare exec_from.simps [simp del]

definition exec :: "bool \<Rightarrow> regex \<Rightarrow> string \<Rightarrow> rmatch option" where
  "exec ic r s = exec_from ic r 0 s"


definition capture :: "rmatch \<Rightarrow> nat \<Rightarrow> string option" where
  \<comment> \<open>The match array at index \<open>n > 0\<close>: the last capture of group \<open>n\<close>,
     \<open>None\<close> for \<^verbatim>\<open>undefined\<close>.\<close>
  "capture mt n = map_of (groups mt) n"

fun getSubstitution :: "string \<Rightarrow> string \<Rightarrow> nat \<Rightarrow> string \<Rightarrow> string" where
  \<comment> \<open>The replacement patterns of \<^verbatim>\<open>String.prototype.replace\<close> with a string replacement,
     for a pattern without capture groups (so \<^verbatim>\<open>$1\<close> ... stay as they are).\<close>
  "getSubstitution mt s pos [] = []"
| "getSubstitution mt s pos [a] = [a]"
| "getSubstitution mt s pos (a # b # t) =
     (if a = CHR ''$'' \<and> b = CHR ''$'' then CHR ''$'' # getSubstitution mt s pos t
      else if a = CHR ''$'' \<and> b = CHR ''&'' then mt @ getSubstitution mt s pos t
      else if a = CHR ''$'' \<and> b = CHR 0x60 then take pos s @ getSubstitution mt s pos t
      else if a = CHR ''$'' \<and> b = CHR 0x27 then drop (pos + length mt) s @ getSubstitution mt s pos t
      else a # getSubstitution mt s pos (b # t))"

definition replace_first :: "bool \<Rightarrow> regex \<Rightarrow> string \<Rightarrow> string \<Rightarrow> string" where
  \<comment> \<open>\<^verbatim>\<open>s.replace(re, repl)\<close> for a regular expression without the global flag.\<close>
  "replace_first ic r repl s =
     (case exec ic r s of
        None \<Rightarrow> s
      | Some mt \<Rightarrow> take (index mt) s @ getSubstitution (matched mt) s (index mt) repl
                     @ drop (index mt + length (matched mt)) s)"

lemma exec_from_matched_le:
  "exec_from ic r i s = Some mt \<Longrightarrow> length (matched mt) \<le> length s \<and> index mt \<le> i + length s"
proof (induction s arbitrary: i)
  case Nil
  then show ?case by (auto simp: exec_from.simps [of ic r i "[]"] split: list.splits)
next
  case (Cons a s)
  show ?case
  proof (cases "m ic r ([], a # s)")
    case Nil
    with Cons.prems have "exec_from ic r (Suc i) s = Some mt"
      by (simp add: exec_from.simps [of ic r i "a # s"])
    from Cons.IH [OF this] show ?thesis by simp
  next
    case (Cons y ys)
    with Cons.prems show ?thesis
      by (auto simp: exec_from.simps [of ic r i "a # s"])
  qed
qed

function replace_all :: "bool \<Rightarrow> regex \<Rightarrow> (rmatch \<Rightarrow> string) \<Rightarrow> string \<Rightarrow> string" where
  \<comment> \<open>\<^verbatim>\<open>s.replace(re, f)\<close> for a regular expression with the global flag and a replacer
     function: every match, left to right, the search going on after the match (one code unit
     further after an empty match).\<close>
  "replace_all ic r f s =
     (case exec ic r s of
        None \<Rightarrow> s
      | Some mt \<Rightarrow>
          if matched mt = []
          then take (index mt) s @ f mt @
                 (if index mt < length s
                  then s ! index mt # replace_all ic r f (drop (Suc (index mt)) s) else [])
          else take (index mt) s @ f mt @
                 replace_all ic r f (drop (index mt + length (matched mt)) s))"
  by pat_completeness auto
termination
proof (relation "measure (\<lambda>(ic, r, f, s). length s)")
  show "wf (measure (\<lambda>(ic, r, f, s). length s))" by simp
next
  fix ic r f s mt
  assume "exec ic r s = Some mt" "matched mt = []" "index mt < length s"
  then show "((ic, r, f, drop (Suc (index mt)) s), (ic, r, f, s)) \<in> measure (\<lambda>(ic, r, f, s). length s)"
    by simp
next
  fix ic r f s mt
  assume a: "exec ic r s = Some mt" "matched mt \<noteq> []"
  from a(1) have "length (matched mt) \<le> length s"
    using exec_from_matched_le [of ic r 0 s mt] by (simp add: exec_def)
  moreover from a(2) have "0 < length (matched mt)"
    by simp
  ultimately have "0 < length s" "0 < index mt + length (matched mt)"
    by linarith+
  then show "((ic, r, f, drop (index mt + length (matched mt)) s), (ic, r, f, s))
      \<in> measure (\<lambda>(ic, r, f, s). length s)"
    by simp
qed

declare replace_all.simps [simp del]

section \<open>Numbers of the host language\<close>

text \<open>
  A number is an IEEE 754 double.  \<open>Finite sg mant e\<close> is the value
  \<open>(-1)\<^bsup>sg\<^esup> * mant * 2\<^bsup>e\<^esup>\<close>; the values rounding produces have
  \<open>mant < 2\<^bsup>53\<^esup>\<close> and \<open>-1074 \<le> e \<le> 971\<close>, with \<open>2\<^bsup>52\<^esup> \<le> mant\<close> unless \<open>e = -1074\<close>.
  Parsing, multiplication and printing follow the language standard: round to nearest, ties
  to even; the shortest digits that read back as the same number.
\<close>

datatype number = NaN | Infinity bool | Finite bool nat int

fun bitlen :: "nat \<Rightarrow> nat" where
  "bitlen n = (if n = 0 then 0 else Suc (bitlen (n div 2)))"

declare bitlen.simps [simp del]

definition frac2 :: "nat \<Rightarrow> nat \<Rightarrow> int \<Rightarrow> nat \<times> nat" where
  \<comment> \<open>The fraction \<open>p / (q * 2\<^bsup>e\<^esup>)\<close>.\<close>
  "frac2 p q e = (if 0 \<le> e then (p, q * 2 ^ nat e) else (p * 2 ^ nat (- e), q))"

definition frac10 :: "nat \<Rightarrow> nat \<Rightarrow> int \<Rightarrow> nat \<times> nat" where
  \<comment> \<open>The fraction \<open>(p / q) * 10\<^bsup>x\<^esup>\<close>.\<close>
  "frac10 p q x = (if 0 \<le> x then (p * 10 ^ nat x, q) else (p, q * 10 ^ nat (- x)))"

definition round_rat :: "bool \<Rightarrow> nat \<Rightarrow> nat \<Rightarrow> number" where
  \<comment> \<open>The double nearest to \<open>p / q\<close> (ties to even), with sign \<open>sg\<close>.\<close>
  "round_rat sg p q =
     (if p = 0 then Finite sg 0 (- 1074)
      else
        let e1 = int (bitlen p) - int (bitlen q) - 53;
            e2 = (if fst (frac2 p q e1) < 2 ^ 53 * snd (frac2 p q e1) then e1 else e1 + 1);
            e = max e2 (- 1074);
            n = fst (frac2 p q e);
            d = snd (frac2 p q e);
            m0 = n div d;
            r = n mod d;
            mant = (if d < 2 * r \<or> (2 * r = d \<and> odd m0) then Suc m0 else m0);
            mant' = (if mant = 2 ^ 53 then 2 ^ 52 else mant);
            e' = (if mant = 2 ^ 53 then e + 1 else e)
        in if 971 < e' then Infinity sg else Finite sg mant' e')"

fun mul :: "number \<Rightarrow> number \<Rightarrow> number" where
  "mul NaN y = NaN"
| "mul (Infinity a) NaN = NaN"
| "mul (Finite a ma ea) NaN = NaN"
| "mul (Infinity a) (Infinity b) = Infinity (a \<noteq> b)"
| "mul (Infinity a) (Finite b mb eb) = (if mb = 0 then NaN else Infinity (a \<noteq> b))"
| "mul (Finite a ma ea) (Infinity b) = (if ma = 0 then NaN else Infinity (a \<noteq> b))"
| "mul (Finite a ma ea) (Finite b mb eb) =
     round_rat (a \<noteq> b) (fst (frac2 (ma * mb) 1 (- (ea + eb)))) (snd (frac2 (ma * mb) 1 (- (ea + eb))))"

definition digits_val :: "string \<Rightarrow> nat" where
  "digits_val ds = foldl (\<lambda>a c. 10 * a + (code c - 48)) 0 ds"

definition exponent_part :: "string \<Rightarrow> int" where
  \<comment> \<open>An exponent part \<^verbatim>\<open>e\<close>, optional sign, at least one digit, at the head of the string;
     0 when there is none.\<close>
  "exponent_part s =
     (case s of
        [] \<Rightarrow> 0
      | a # t \<Rightarrow>
          if a = CHR ''e'' \<or> a = CHR ''E'' then
            (case t of
               [] \<Rightarrow> 0
             | b # u \<Rightarrow>
                 if b = CHR ''-'' then (if takeWhile isDigit u = [] then 0 else - int (digits_val (takeWhile isDigit u)))
                 else if b = CHR ''+'' then int (digits_val (takeWhile isDigit u))
                 else int (digits_val (takeWhile isDigit t)))
          else 0)"

definition parseFloat :: "string \<Rightarrow> number" where
  \<comment> \<open>The global \<^verbatim>\<open>parseFloat\<close>: leading white space is skipped, the longest prefix that is a
     decimal literal is read, and \<^verbatim>\<open>NaN\<close> is the result when there is none.\<close>
  "parseFloat inp =
     (let s0 = dropWhile isWhiteSpace inp;
          sg = (case s0 of [] \<Rightarrow> False | a # _ \<Rightarrow> a = CHR ''-'');
          s1 = (case s0 of [] \<Rightarrow> [] | a # t \<Rightarrow> if a = CHR ''-'' \<or> a = CHR ''+'' then t else s0)
      in if starts_with s1 ''Infinity'' then Infinity sg
         else
           let ip = takeWhile isDigit s1;
               r1 = dropWhile isDigit s1;
               dot = (case r1 of [] \<Rightarrow> False | a # _ \<Rightarrow> a = CHR ''.'');
               fp = (if dot then takeWhile isDigit (tl r1) else []);
               r2 = (if dot then dropWhile isDigit (tl r1) else r1);
               x = exponent_part r2 - int (length fp)
           in if ip = [] \<and> fp = [] then NaN
              else round_rat sg (fst (frac10 (digits_val (ip @ fp)) 1 x))
                                (snd (frac10 (digits_val (ip @ fp)) 1 x)))"

definition parseFloat_arg :: "string option \<Rightarrow> number" where
  \<comment> \<open>\<^verbatim>\<open>parseFloat\<close> of a capture: \<^verbatim>\<open>undefined\<close> reads as \<^verbatim>\<open>NaN\<close>.\<close>
  "parseFloat_arg a = (case a of None \<Rightarrow> NaN | Some s \<Rightarrow> parseFloat s)"

fun dec :: "nat \<Rightarrow> string" where
  "dec n = (if n < 10 then [char_of (48 + n)] else dec (n div 10) @ [char_of (48 + n mod 10)])"

declare dec.simps [simp del]

function low :: "nat \<Rightarrow> nat \<Rightarrow> nat" where
  \<comment> \<open>How often \<open>p / q\<close> is multiplied by 10 until it reaches 1.\<close>
  "low p q = (if p = 0 \<or> q \<le> p then 0 else Suc (low (10 * p) q))"
  by pat_completeness auto
termination
  by (relation "measure (\<lambda>(p, q). q - p)") auto

declare low.simps [simp del]

definition n0_of :: "nat \<Rightarrow> int \<Rightarrow> int" where
  \<comment> \<open>The \<open>n\<close> with \<open>10\<^bsup>n-1\<^esup> \<le> mant * 2\<^bsup>e\<^esup> < 10\<^bsup>n\<^esup>\<close>.\<close>
  "n0_of mant e =
     (let p = fst (frac2 mant 1 (- e)); q = snd (frac2 mant 1 (- e))
      in if q \<le> p then int (length (dec (p div q))) else 1 - int (low p q))"

definition round_trips :: "nat \<Rightarrow> int \<Rightarrow> nat \<Rightarrow> int \<Rightarrow> bool" where
  "round_trips mant e s x =
     (round_rat False (fst (frac10 s 1 x)) (snd (frac10 s 1 x)) = Finite False mant e)"

definition candidates :: "nat \<Rightarrow> int \<Rightarrow> nat \<Rightarrow> int \<Rightarrow> (nat \<times> int) list" where
  \<comment> \<open>The \<open>k\<close>-digit decimals \<open>s * 10\<^bsup>n-k\<^esup>\<close> next to the value on either side that read back
     as the same double.\<close>
  "candidates mant e k n0 =
     (let p = fst (frac2 mant 1 (- e)); q = snd (frac2 mant 1 (- e));
          lo = fst (frac10 p q (int k - n0)) div snd (frac10 p q (int k - n0));
          norm = (\<lambda>s. if s = 10 ^ k then (10 ^ (k - 1), n0 + 1) else (s, n0))
      in filter (\<lambda>(s, n). 10 ^ (k - 1) \<le> s \<and> s < 10 ^ k \<and> round_trips mant e s (n - int k))
           [norm lo, norm (Suc lo)])"

definition dist :: "nat \<Rightarrow> int \<Rightarrow> nat \<Rightarrow> (nat \<times> int) \<Rightarrow> nat \<times> nat" where
  \<comment> \<open>The distance of the candidate from the value, as a fraction.\<close>
  "dist mant e k c =
     (let p = fst (frac2 mant 1 (- e)); q = snd (frac2 mant 1 (- e));
          pp = fst (frac10 (fst c) 1 (snd c - int k)); qq = snd (frac10 (fst c) 1 (snd c - int k))
      in (if pp * q < p * qq then p * qq - pp * q else pp * q - p * qq, q * qq))"

definition closest :: "nat \<Rightarrow> int \<Rightarrow> nat \<Rightarrow> (nat \<times> int) list \<Rightarrow> (nat \<times> int) option" where
  "closest mant e k cs =
     (case cs of
        [] \<Rightarrow> None
      | a # rest \<Rightarrow>
          (case rest of
             [] \<Rightarrow> Some a
           | b # _ \<Rightarrow>
               (let da = dist mant e k a; db = dist mant e k b
                in if fst da * snd db < fst db * snd da then Some a
                   else if fst db * snd da < fst da * snd db then Some b
                   else if even (fst a) then Some a else Some b)))"

fun shortest :: "nat \<Rightarrow> nat \<Rightarrow> nat \<Rightarrow> int \<Rightarrow> int \<Rightarrow> nat \<times> nat \<times> int" where
  \<comment> \<open>The digits \<open>s\<close>, their number \<open>k\<close> and the exponent \<open>n\<close>: the least \<open>k\<close> from \<open>k\<close> on
     with a candidate; 17 digits always have one.\<close>
  "shortest 0 k mant e n0 =
     (fst (frac10 (fst (frac2 mant 1 (- e))) (snd (frac2 mant 1 (- e))) (int k - n0))
        div snd (frac10 (fst (frac2 mant 1 (- e))) (snd (frac2 mant 1 (- e))) (int k - n0)), k, n0)"
| "shortest (Suc fuel) k mant e n0 =
     (case closest mant e k (candidates mant e k n0) of
        Some c \<Rightarrow> (fst c, k, snd c)
      | None \<Rightarrow> shortest fuel (Suc k) mant e n0)"

definition format_digits :: "string \<Rightarrow> int \<Rightarrow> string" where
  \<comment> \<open>The digits \<open>ds\<close> of a positive number with exponent \<open>n\<close>, as \<^verbatim>\<open>Number::toString\<close> lays them out.\<close>
  "format_digits ds n =
     (let k = int (length ds) in
      if k \<le> n \<and> n \<le> 21 then ds @ replicate (nat (n - k)) CHR ''0''
      else if 0 < n \<and> n \<le> 21 then take (nat n) ds @ ''.'' @ drop (nat n) ds
      else if - 6 < n \<and> n \<le> 0 then ''0.'' @ replicate (nat (- n)) CHR ''0'' @ ds
      else (if k = 1 then ds else take 1 ds @ ''.'' @ drop 1 ds)
             @ ''e'' @ (if 0 \<le> n - 1 then ''+'' else ''-'') @ dec (nat (abs (n - 1))))"

definition numberToString :: "number \<Rightarrow> string" where
  "numberToString x =
     (case x of
        NaN \<Rightarrow> ''NaN''
      | Infinity sg \<Rightarrow> (if sg then ''-Infinity'' else ''Infinity'')
      | Finite sg mant e \<Rightarrow>
          if mant = 0 then ''0''
          else
            let r = shortest 17 1 mant e (n0_of mant e)
            in (if sg then ''-'' else []) @ format_digits (dec (fst r)) (snd (snd r)))"

section \<open>The four stages\<close>

datatype js_error = TypeError

definition htmlDocument :: regex where
  \<comment> \<open>\<^verbatim>\<open>/(<!DOCTYPE html>|<html)[\s\S]*?<\/html>/i\<close>\<close>
  "htmlDocument =
     Seq (Group 1 (Alt (Str ''<!DOCTYPE html>'') (Str ''<html'')))
      (Seq (LazyStar (Cls AnyChar)) (Str ''</html>''))"

definition codeBlock :: regex where
  \<comment> \<open>\<^verbatim>\<open>/```(?:html)?\s*([\s\S]*?)```/\<close>\<close>
  "codeBlock =
     Seq (Str [CHR 0x60, CHR 0x60, CHR 0x60])
      (Seq (Opt (Str ''html''))
        (Seq (Star (Cls Space))
          (Seq (Group 1 (LazyStar (Cls AnyChar))) (Str [CHR 0x60, CHR 0x60, CHR 0x60]))))"

definition extractHtmlFromText :: "string \<Rightarrow> js_error + string" where
  \<comment> \<open>\<^verbatim>\<open>codeBlockMatch[1].trim()\<close> throws a TypeError when the capture is \<^verbatim>\<open>undefined\<close>.\<close>
  "extractHtmlFromText text =
     (if text = [] then Inr []
      else
        case exec True htmlDocument text of
          Some htmlMatch \<Rightarrow> Inr (matched htmlMatch)
        | None \<Rightarrow>
            (case exec False codeBlock text of
               Some codeBlockMatch \<Rightarrow>
                 (case capture codeBlockMatch 1 of
                    None \<Rightarrow> Inl TypeError
                  | Some g \<Rightarrow> Inr (trim g))
             | None \<Rightarrow> Inr (trim text)))"

definition cssToInject :: string where
  \<open>cssToInject = ''
    <style>
      #info, #loading, #ui, #instructions, .label, .overlay, #description {
        display: none !important;
        opacity: 0 !important;
        pointer-events: none !important;
        visibility: hidden !important;
      }
      body {
        user-select: none !important;
      }
    </style>
  ''\<close>

definition gameScript :: string where
  \<open>gameScript = ''
    // --- INJECTED GAME & EXPORT LOGIC ---
    (function() {
        async function startInjectedLogic() {
            console.log("[Voxelize] Injected logic started. Waiting for Three.js variables...");
            
            // Poll for variables that might be defined in the parent module scope
            let THREE_obj, scene_obj, camera_obj, renderer_obj, controls_obj;
            
            const poll = async () => {
                for (let i = 0; i < 100; i++) {
                    try {
                        THREE_obj = typeof THREE !== 'undefined' ? THREE : null;
                        scene_obj = typeof scene !== 'undefined' ? scene : null;
                        camera_obj = typeof camera !== 'undefined' ? camera : null;
                        renderer_obj = typeof renderer !== 'undefined' ? renderer : null;
                        controls_obj = typeof controls !== 'undefined' ? controls : null;
                        
                        if (THREE_obj && scene_obj && renderer_obj) return true;
                    } catch(e) {}
                    await new Promise(r => setTimeout(r, 100));
                }
                return false;
            };

            const found = await poll();
            if (!found) {
                console.warn("[Voxelize] Could not find THREE or scene variables. Export may not work.");
                return;
            }

            console.log("[Voxelize] Three.js variables found. Ready for interactions.");

            // 1. Export Handler
            window.addEventListener('message', async (event) => {
                if (event.data === 'EXPORT_GLB') {
                    console.log("[Voxelize] Export command received.");
                    try {
                        // Attempt to load exporter from the import map or direct unpkg link
                        let GLTFExporter;
                        try {
                            const module = await import('three/addons/exporters/GLTFExporter.js');
                            GLTFExporter = module.GLTFExporter;
                        } catch (err) {
                            console.log("[Voxelize] Import map failed, trying direct unpkg link...");
                            const module = await import('https://unpkg.com/three@0.160.0/examples/jsm/exporters/GLTFExporter.js');
                            GLTFExporter = module.GLTFExporter;
                        }

                        if (!GLTFExporter) throw new Error("GLTFExporter not found in loaded modules");

                        const exporter = new GLTFExporter();
                        exporter.parse(scene_obj, (gltf) => {
                            const blob = gltf instanceof ArrayBuffer 
                                ? new Blob([gltf], { type: 'application/octet-stream' })
                                : new Blob([JSON.stringify(gltf)], { type: 'application/json' });
                            
                            const url = URL.createObjectURL(blob);
                            const link = document.createElement('a');
                            link.style.display = 'none';
                            link.href = url;
                            link.download = 'voxel-scene-' + Date.now() + (gltf instanceof ArrayBuffer ? '.glb' : '.gltf');
                            document.body.appendChild(link);
                            link.click();
                            document.body.removeChild(link);
                            URL.revokeObjectURL(url);
                            console.log("[Voxelize] Export successful.");
                        }, (error) => {
                            console.error('[Voxelize] Export error:', error);
                        }, { binary: true, includeCustomExtensions: true });
                    } catch (err) {
                        console.error("[Voxelize] Failed to export GLB:", err);
                    }
                }
            });

            // 2. Character Setup
            const dist = camera_obj.position.distanceTo(new THREE_obj.Vector3(0,0,0));
            const playerHeight = Math.max(1, dist / 25); 
            const playerRadius = playerHeight * 0.3;
            const moveSpeed = playerHeight * 15;
            const jumpForce = playerHeight * 15;
            const gravity = playerHeight * 40;

            const geometry = new THREE_obj.CylinderGeometry(playerRadius, playerRadius, playerHeight, 16);
            const material = new THREE_obj.MeshStandardMaterial({ color: 0xff0055, roughness: 0.4 });
            const player = new THREE_obj.Mesh(geometry, material);
            player.position.set(0, playerHeight * 5, 0); 
            scene_obj.add(player);
            
            const shadowGeo = new THREE_obj.CircleGeometry(playerRadius * 1.5, 16);
            const shadowMat = new THREE_obj.MeshBasicMaterial({ color: 0x000000, transparent: true, opacity: 0.3, depthWrite: false });
            const shadow = new THREE_obj.Mesh(shadowGeo, shadowMat);
            shadow.rotation.x = -Math.PI / 2;
            scene_obj.add(shadow);

            const input = { f: false, b: false, l: false, r: false, space: false };
            window.addEventListener('keydown', (e) => {
                const key = e.code;
                if (key === 'KeyW' || key === 'ArrowUp') input.f = true;
                if (key === 'KeyS' || key === 'ArrowDown') input.b = true;
                if (key === 'KeyA' || key === 'ArrowLeft') input.l = true;
                if (key === 'KeyD' || key === 'ArrowRight') input.r = true;
                if (key === 'Space') input.space = true;
            });
            window.addEventListener('keyup', (e) => {
                const key = e.code;
                if (key === 'KeyW' || key === 'ArrowUp') input.f = false;
                if (key === 'KeyS' || key === 'ArrowDown') input.b = false;
                if (key === 'KeyA' || key === 'ArrowLeft') input.l = false;
                if (key === 'KeyD' || key === 'ArrowRight') input.r = false;
                if (key === 'Space') input.space = false;
            });

            const velocity = new THREE_obj.Vector3();
            const raycaster = new THREE_obj.Raycaster();
            const down = new THREE_obj.Vector3(0, -1, 0);
            const clock = new THREE_obj.Clock();

            const originalRender = renderer_obj.render.bind(renderer_obj);
            
            renderer_obj.render = (s, c) => {
                const dt = Math.min(clock.getDelta(), 0.1); 
                velocity.y -= gravity * dt;

                const camDir = new THREE_obj.Vector3();
                camera_obj.getWorldDirection(camDir);
                camDir.y = 0;
                camDir.normalize();
                
                const camRight = new THREE_obj.Vector3();
                camRight.crossVectors(camDir, new THREE_obj.Vector3(0, 1, 0)).normalize();

                const moveDir = new THREE_obj.Vector3();
                if (input.f) moveDir.add(camDir);
                if (input.b) moveDir.sub(camDir);
                if (input.l) moveDir.sub(camRight);
                if (input.r) moveDir.add(camRight);

                if (moveDir.lengthSq() > 0) {
                    moveDir.normalize();
                    player.position.add(moveDir.multiplyScalar(moveSpeed * dt));
                }

                raycaster.set(player.position, down);
                const intersects = raycaster.intersectObjects(scene_obj.children, true);
                
                let groundY = -Infinity;
                for (let hit of intersects) {
                    if (hit.object !== player && hit.object !== shadow && !hit.object.userData.ignoreRaycast) {
                        groundY = hit.point.y;
                        break; 
                    }
                }

                const feetPos = player.position.y - playerHeight/2;
                if (feetPos <= groundY + 0.1) {
                    if (velocity.y <= 0) {
                        player.position.y = groundY + playerHeight/2;
                        velocity.y = 0;
                        if (input.space) velocity.y = jumpForce;
                    }
                }
                
                player.position.y += velocity.y * dt;

                if (groundY > -100) {
                    shadow.position.set(player.position.x, groundY + 0.05, player.position.z);
                    shadow.visible = true;
                } else {
                    shadow.visible = false;
                }

                if (player.position.y < -100) {
                    player.position.set(0, playerHeight * 10, 0);
                    velocity.set(0, 0, 0);
                }

                if (controls_obj) {
                    const targetPos = player.position.clone();
                    controls_obj.target.lerp(targetPos, 0.1);
                    controls_obj.update();
                } else {
                    camera_obj.lookAt(player.position);
                }

                originalRender(s, c);
            };
        }
        
        // Use requestAnimationFrame to ensure the rest of the script has a chance to initialize variables
        requestAnimationFrame(() => {
            startInjectedLogic().catch(console.error);
        });
    })();
    ''\<close>

definition hideBodyText :: "string \<Rightarrow> string" where
  "hideBodyText html =
     (if includes_str (toLowerCase html) ''</head>''
      then replace_first True (Str ''</head>'') (cssToInject @ ''</head>'') html
      else if includes_str (toLowerCase html) ''</body>''
      then replace_first True (Str ''</body>'') (cssToInject @ ''</body>'') html
      else html @ cssToInject)"

definition numberLiteral :: regex where
  \<comment> \<open>\<^verbatim>\<open>-?\d*\.?\d+\<close>\<close>
  "numberLiteral = Seq (Opt (Str ''-'')) (Seq (Star (Cls Digit)) (Seq (Opt (Str ''.'')) (Plus (Cls Digit))))"

definition cameraCall :: regex where
  \<comment> \<open>\<^verbatim>\<open>/camera\.position\.set\(\s*(-?\d*\.?\d+)\s*,\s*(-?\d*\.?\d+)\s*,\s*(-?\d*\.?\d+)\s*\)/g\<close>\<close>
  "cameraCall =
     Seq (Str ''camera.position.set('')
      (Seq (Star (Cls Space)) (Seq (Group 1 numberLiteral) (Seq (Star (Cls Space)) (Seq (Str '','')
      (Seq (Star (Cls Space)) (Seq (Group 2 numberLiteral) (Seq (Star (Cls Space)) (Seq (Str '','')
      (Seq (Star (Cls Space)) (Seq (Group 3 numberLiteral) (Seq (Star (Cls Space)) (Str '')''))))))))))))"

definition scaled :: "number \<Rightarrow> string option \<Rightarrow> string" where
  \<comment> \<open>\<^verbatim>\<open>parseFloat(x) * zoomFactor\<close>, as the template literal prints it.\<close>
  "scaled zoomFactor x = numberToString (mul (parseFloat_arg x) zoomFactor)"

definition zoomReplacer :: "number \<Rightarrow> rmatch \<Rightarrow> string" where
  "zoomReplacer zoomFactor mt =
     ''camera.position.set('' @ scaled zoomFactor (capture mt 1) @ '', ''
       @ scaled zoomFactor (capture mt 2) @ '', '' @ scaled zoomFactor (capture mt 3) @ '')''"

definition zoomCamera :: "string \<Rightarrow> number \<Rightarrow> string" where
  "zoomCamera html zoomFactor = replace_all False cameraCall (zoomReplacer zoomFactor) html"

definition lastScriptTag :: regex where
  \<comment> \<open>\<^verbatim>\<open>/<\/script>(?![\s\S]*<\/script>)/i\<close>\<close>
  "lastScriptTag =
     Seq (Str ''</script>'') (NegLook (Seq (Star (Cls AnyChar)) (Str ''</script>'')))"

definition injectGameMode :: "string \<Rightarrow> string" where
  \<open>injectGameMode html =
     (case exec True lastScriptTag html of
        None \<Rightarrow> html @ ''<script type="module">'' @ gameScript @ ''</script>''
      | Some _ \<Rightarrow>
          replace_first True lastScriptTag (CHR 0x0A # gameScript @ CHR 0x0A # ''</script>'') html)\<close>

section \<open>Notions of the specification\<close>

text \<open>
  The specification speaks of the first and the last occurrence of a tag, with or without
  regard to case.  An occurrence regardless of case of a lower-case pattern is an occurrence
  in the lower-cased text.
\<close>

fun find_str :: "string \<Rightarrow> string \<Rightarrow> nat option" where
  \<comment> \<open>The index of the first occurrence of \<open>p\<close> in the text.\<close>
  "find_str p [] = (if p = [] then Some 0 else None)"
| "find_str p (a # s) = (if starts_with (a # s) p then Some 0 else map_option Suc (find_str p s))"

fun find_last :: "string \<Rightarrow> string \<Rightarrow> nat option" where
  \<comment> \<open>The index of the last occurrence of \<open>p\<close> in the text.\<close>
  "find_last p [] = (if p = [] then Some 0 else None)"
| "find_last p (a # s) =
     (case find_last p s of
        Some i \<Rightarrow> Some (Suc i)
      | None \<Rightarrow> if starts_with (a # s) p then Some 0 else None)"

definition find_ci :: "string \<Rightarrow> string \<Rightarrow> nat option" where
  "find_ci p s = find_str p (toLowerCase s)"

definition find_last_ci :: "string \<Rightarrow> string \<Rightarrow> nat option" where
  "find_last_ci p s = find_last p (toLowerCase s)"

definition first_result :: "bool \<Rightarrow> regex \<Rightarrow> mstate \<Rightarrow> mstate option" where
  \<comment> \<open>The state in which backtracking first succeeds.\<close>
  "first_result ic r x = (case m ic r x of [] \<Rightarrow> None | y # _ \<Rightarrow> Some y)"

text \<open>
  The contract of the extractor, in the words of the specification: the leftmost opening
  marker that a closing \<^verbatim>\<open></html>\<close> follows, through the first such closing tag; else the
  interior of the first fenced block, trimmed; else the trimmed text.
\<close>

definition fence :: string where
  "fence = [CHR 0x60, CHR 0x60, CHR 0x60]"

definition opening_marker :: "string \<Rightarrow> nat option" where
  \<comment> \<open>The length of the opening marker at the head of the text, regardless of case.\<close>
  "opening_marker text =
     (if starts_with (toLowerCase text) ''<!doctype html>'' then Some 15
      else if starts_with (toLowerCase text) ''<html'' then Some 5
      else None)"

definition document_here :: "string \<Rightarrow> string option" where
  \<comment> \<open>An opening marker at the head of the text, through the first closing tag after it.\<close>
  "document_here text =
     (case opening_marker text of
        None \<Rightarrow> None
      | Some n \<Rightarrow>
          (case find_ci ''</html>'' (drop n text) of
             None \<Rightarrow> None
           | Some k \<Rightarrow> Some (take (n + k + 7) text)))"

fun first_document :: "string \<Rightarrow> string option" where
  "first_document [] = None"
| "first_document (a # s) =
     (case document_here (a # s) of Some d \<Rightarrow> Some d | None \<Rightarrow> first_document s)"

definition fenced_here :: "string \<Rightarrow> string option" where
  \<comment> \<open>The interior of a fenced block whose opening fence is at the head of the text: what
     stands after the fence, an optional \<^verbatim>\<open>html\<close> tag and white space, up to the next fence.\<close>
  "fenced_here text =
     (if starts_with text fence then
        (let a = drop 3 text;
             b = (if starts_with a ''html'' then drop 4 a else a);
             c = dropWhile isWhiteSpace b
         in case find_str fence c of None \<Rightarrow> None | Some k \<Rightarrow> Some (take k c))
      else None)"

fun first_fenced_block :: "string \<Rightarrow> string option" where
  "first_fenced_block [] = None"
| "first_fenced_block (a # s) =
     (case fenced_here (a # s) of Some b \<Rightarrow> Some b | None \<Rightarrow> first_fenced_block s)"

definition extract_contract :: "string \<Rightarrow> string" where
  "extract_contract text =
     (if text = [] then []
      else
        case first_document text of
          Some d \<Rightarrow> d
        | None \<Rightarrow> (case first_fenced_block text of Some b \<Rightarrow> trim b | None \<Rightarrow> trim text))"

text \<open>
  The contract of the camera rescaler.  A call that is rewritten is the text
  \<^verbatim>\<open>camera.position.set(\<close>, then three arguments, each a signed decimal literal with white space
  around it as one likes, a comma after the first and the second, a closing parenthesis after
  the third.  The rescaler goes through the text from left to right: where such a call
  starts, it writes the call with the scaled arguments and goes on after the call; elsewhere
  it copies one code unit.
\<close>

definition litchar :: "char \<Rightarrow> bool" where
  "litchar c = (isDigit c \<or> c = CHR ''-'' \<or> c = CHR ''.'')"

definition is_number_literal :: "string \<Rightarrow> bool" where
  \<comment> \<open>An optional minus sign, digits, and then either nothing more (after at least one
     digit) or a point and at least one digit.\<close>
  "is_number_literal x =
     (let a = (case x of [] \<Rightarrow> [] | c # r \<Rightarrow> if c = CHR ''-'' then r else x);
          r = dropWhile isDigit a
      in case r of
           [] \<Rightarrow> a \<noteq> []
         | c # f \<Rightarrow> c = CHR ''.'' \<and> f \<noteq> [] \<and> list_all isDigit f)"

definition argument :: "char \<Rightarrow> string \<Rightarrow> (string \<times> string) option" where
  \<comment> \<open>White space, a number literal, white space and the delimiter \<open>d\<close> at the head of the
     text: the literal and the text after the delimiter.\<close>
  "argument d t =
     (let t1 = dropWhile isWhiteSpace t;
          x = takeWhile litchar t1;
          t2 = dropWhile isWhiteSpace (dropWhile litchar t1)
      in if is_number_literal x \<and> starts_with t2 [d] then Some (x, drop 1 t2) else None)"

definition parse_call :: "string \<Rightarrow> (string \<times> string \<times> string \<times> string) option" where
  \<comment> \<open>A call at the head of the text: its three arguments and the text after it.\<close>
  "parse_call t =
     (if starts_with t ''camera.position.set('' then
        (case argument CHR '','' (drop 20 t) of
           None \<Rightarrow> None
         | Some (x, t1) \<Rightarrow>
             (case argument CHR '','' t1 of
                None \<Rightarrow> None
              | Some (y, t2) \<Rightarrow>
                  (case argument CHR '')'' t2 of
                     None \<Rightarrow> None
                   | Some (z, rest) \<Rightarrow> Some (x, y, z, rest))))
      else None)"

lemma argument_shorter: "argument d t = Some (x, t') \<Longrightarrow> length t' < length t"
proof -
  assume a: "argument d t = Some (x, t')"
  let ?t1 = "dropWhile isWhiteSpace t"
  let ?t2 = "dropWhile isWhiteSpace (dropWhile litchar ?t1)"
  from a have s: "starts_with ?t2 [d]" and t': "t' = drop 1 ?t2"
    by (auto simp: argument_def Let_def split: if_splits)
  from s have "?t2 \<noteq> []"
    by (cases ?t2) auto
  then have "length t' < length ?t2"
    by (simp add: t')
  also have "length ?t2 \<le> length (dropWhile litchar ?t1)"
    by (rule length_dropWhile_le)
  also have "\<dots> \<le> length ?t1"
    by (rule length_dropWhile_le)
  also have "\<dots> \<le> length t"
    by (rule length_dropWhile_le)
  finally show ?thesis .
qed

lemma parse_call_shorter: "parse_call t = Some (x, y, z, rest) \<Longrightarrow> length rest < length t"
proof -
  assume "parse_call t = Some (x, y, z, rest)"
  then obtain t1 t2 where "argument CHR '','' (drop 20 t) = Some (x, t1)"
    "argument CHR '','' t1 = Some (y, t2)" "argument CHR '')'' t2 = Some (z, rest)"
    by (auto simp: parse_call_def split: if_splits option.splits)
  then have "length t1 < length (drop 20 t)" "length t2 < length t1" "length rest < length t2"
    by (auto dest: argument_shorter)
  then show ?thesis by simp
qed

function zoom_contract :: "number \<Rightarrow> string \<Rightarrow> string" where
  "zoom_contract f [] = []"
| "zoom_contract f (a # s) =
     (case parse_call (a # s) of
        None \<Rightarrow> a # zoom_contract f s
      | Some (x, y, z, rest) \<Rightarrow>
          ''camera.position.set('' @ scaled f (Some x) @ '', '' @ scaled f (Some y) @ '', ''
            @ scaled f (Some z) @ '')'' @ zoom_contract f rest)"
  by pat_completeness auto
termination
  by (relation "measure (\<lambda>(f, s). length s)") (auto dest: parse_call_shorter)

section \<open>Characters and literals\<close>

lemma code_less_256: "code c < 256"
  by (simp add: code_def)

lemma code_eq_iff: "(code a = code b) = (a = b)"
  by (simp add: code_def)

lemma code_toLowerCaseChar: "code (toLowerCaseChar c) = lower_code (code c)"
proof -
  have "code c < 256" by (rule code_less_256)
  then have "lower_code (code c) < 256" by (auto simp: lower_code_def)
  then show ?thesis by (simp add: toLowerCaseChar_def code_def)
qed

lemma upper_lower_code:
  assumes "y < 128"
  shows "(upper_code y = upper_code x) = (lower_code x = lower_code y)"
proof -
  consider "97 \<le> y \<and> y \<le> 122" | "65 \<le> y \<and> y \<le> 90" | "y < 65 \<or> (90 < y \<and> y < 97) \<or> 122 < y"
    by arith
  then show ?thesis
  proof cases
    case 1
    then have "upper_code y = y - 32" "lower_code y = y"
      by (auto simp: upper_code_def lower_code_def)
    moreover have "(y - 32 = upper_code x) = (lower_code x = y)"
      using 1 unfolding upper_code_def lower_code_def by (simp split: if_splits; arith)
    ultimately show ?thesis by simp
  next
    case 2
    then have "upper_code y = y" "lower_code y = y + 32"
      using assms by (auto simp: upper_code_def lower_code_def)
    moreover have "(y = upper_code x) = (lower_code x = y + 32)"
      using 2 unfolding upper_code_def lower_code_def by (simp split: if_splits; arith)
    ultimately show ?thesis by simp
  next
    case 3
    then have "upper_code y = y" "lower_code y = y"
      using assms by (auto simp: upper_code_def lower_code_def)
    moreover have "(y = upper_code x) = (lower_code x = y)"
      using 3 assms unfolding upper_code_def lower_code_def by (simp split: if_splits; arith)
    ultimately show ?thesis by simp
  qed
qed

lemma canonicalize_ascii:
  assumes "code p < 128"
  shows "(canonicalize True p = canonicalize True c) = (toLowerCaseChar c = toLowerCaseChar p)"
proof -
  have "(toLowerCaseChar c = toLowerCaseChar p) = (code (toLowerCaseChar c) = code (toLowerCaseChar p))"
    by (simp add: code_eq_iff)
  then show ?thesis
    using upper_lower_code [OF assms, of "code c"]
    by (simp add: code_toLowerCaseChar canonicalize_def)
qed

lemma canonicalize_False: "(canonicalize False p = canonicalize False c) = (c = p)"
  by (auto simp: canonicalize_def code_eq_iff)

lemma starts_with_iff: "starts_with s p = (length p \<le> length s \<and> take (length p) s = p)"
  by (induction s p rule: starts_with.induct) auto

lemma starts_with_append [simp]: "starts_with (p @ t) p"
  by (simp add: starts_with_iff)

lemma str_match_False: "str_match False p s = starts_with s p"
proof (induction p arbitrary: s)
  case Nil
  then show ?case by simp
next
  case (Cons a p)
  then show ?case by (cases s) (auto simp: canonicalize_False)
qed

definition ascii :: "string \<Rightarrow> bool" where
  "ascii p = list_all (\<lambda>a. code a < 128) p"

lemma str_match_True:
  "ascii p \<Longrightarrow> str_match True p s = starts_with (toLowerCase s) (toLowerCase p)"
proof (induction p arbitrary: s)
  case Nil
  then show ?case by (simp add: toLowerCase_def)
next
  case (Cons a p)
  then show ?case
    by (cases s) (auto simp: canonicalize_ascii toLowerCase_def ascii_def)
qed

lemma str_match_length: "str_match ic p s \<Longrightarrow> length p \<le> length s"
  by (induction ic p s rule: str_match.induct) auto

lemma length_toLowerCase [simp]: "length (toLowerCase s) = length s"
  by (simp add: toLowerCase_def)

lemma toLowerCase_append [simp]: "toLowerCase (a @ b) = toLowerCase a @ toLowerCase b"
  by (simp add: toLowerCase_def)

lemma toLowerCase_drop: "toLowerCase (drop n s) = drop n (toLowerCase s)"
  by (simp add: toLowerCase_def drop_map)

lemma toLowerCase_take: "toLowerCase (take n s) = take n (toLowerCase s)"
  by (simp add: toLowerCase_def take_map)

section \<open>Searching a text\<close>

lemma find_str_Some_iff:
  "find_str p s = Some n \<longleftrightarrow>
     n \<le> length s \<and> starts_with (drop n s) p \<and> (\<forall>j<n. \<not> starts_with (drop j s) p)"
proof (induction s arbitrary: n)
  case Nil
  then show ?case by (cases p) auto
next
  case (Cons a s)
  show ?case
  proof (cases "starts_with (a # s) p")
    case True
    then show ?thesis
      by (cases n) auto
  next
    case False
    show ?thesis
    proof (cases n)
      case 0
      with False show ?thesis by simp
    next
      case (Suc k)
      have "(\<forall>j<Suc k. \<not> starts_with (drop j (a # s)) p) = (\<forall>j<k. \<not> starts_with (drop j s) p)"
        using False by (auto simp: less_Suc_eq_0_disj)
      with False Suc Cons.IH [of k] show ?thesis
        by auto
    qed
  qed
qed

lemma all_le_Suc: "(\<forall>j\<le>Suc n. Q j) = (Q 0 \<and> (\<forall>j\<le>n. Q (Suc j)))"
proof
  assume "\<forall>j\<le>Suc n. Q j"
  then show "Q 0 \<and> (\<forall>j\<le>n. Q (Suc j))" by auto
next
  assume a: "Q 0 \<and> (\<forall>j\<le>n. Q (Suc j))"
  show "\<forall>j\<le>Suc n. Q j"
  proof (intro allI impI)
    fix j assume "j \<le> Suc n"
    with a show "Q j" by (cases j) auto
  qed
qed

lemma find_str_None_iff:
  "find_str p s = None \<longleftrightarrow> (\<forall>j\<le>length s. \<not> starts_with (drop j s) p)"
proof (induction s)
  case Nil
  then show ?case by (auto simp: starts_with_iff)
next
  case (Cons a s)
  then show ?case
    by (simp add: all_le_Suc)
qed

lemma includes_str_iff: "includes_str s p = (find_str p s \<noteq> None)"
  by (induction s) (auto simp: starts_with_iff split: if_splits)

lemma find_last_None_iff:
  "find_last p s = None \<longleftrightarrow> (\<forall>j\<le>length s. \<not> starts_with (drop j s) p)"
proof (induction s)
  case Nil
  then show ?case by (auto simp: starts_with_iff)
next
  case (Cons a s)
  show ?case
  proof (cases "find_last p s")
    case None
    with Cons show ?thesis by (simp add: all_le_Suc)
  next
    case (Some i)
    with Cons have "\<exists>j\<le>length s. starts_with (drop j s) p" by auto
    with Some show ?thesis by (auto simp: all_le_Suc)
  qed
qed

lemma find_last_Some_iff:
  "find_last p s = Some n \<longleftrightarrow>
     n \<le> length s \<and> starts_with (drop n s) p
       \<and> (\<forall>j\<le>length s. n < j \<longrightarrow> \<not> starts_with (drop j s) p)"
proof (induction s arbitrary: n)
  case Nil
  then show ?case by (cases p) auto
next
  case (Cons a s)
  show ?case
  proof (cases "find_last p s")
    case None
    then have no: "\<forall>j\<le>length s. \<not> starts_with (drop j s) p"
      by (simp add: find_last_None_iff)
    show ?thesis
    proof (cases n)
      case 0
      with None no show ?thesis by (auto simp: all_le_Suc)
    next
      case (Suc k)
      with None no show ?thesis by auto
    qed
  next
    case (Some i)
    then have i: "i \<le> length s" "starts_with (drop i s) p"
      "\<forall>j\<le>length s. i < j \<longrightarrow> \<not> starts_with (drop j s) p"
      using Cons.IH [of i] by auto
    show ?thesis
    proof (cases n)
      case 0
      from i(1,2) have "\<exists>j\<le>length (a # s). 0 < j \<and> starts_with (drop j (a # s)) p"
        by (intro exI [of _ "Suc i"]) simp
      with 0 Some show ?thesis by auto
    next
      case (Suc k)
      show ?thesis
      proof (cases "k = i")
        case True
        with Suc Some i show ?thesis by (auto simp: all_le_Suc)
      next
        case False
        then consider "k < i" | "i < k" by arith
        then have "\<not> (k \<le> length s \<and> starts_with (drop k s) p
            \<and> (\<forall>j\<le>length s. k < j \<longrightarrow> \<not> starts_with (drop j s) p))"
        proof cases
          case 1
          with i show ?thesis by auto
        next
          case 2
          with i show ?thesis by auto
        qed
        with False Suc Some show ?thesis by (auto simp: all_le_Suc)
      qed
    qed
  qed
qed

section \<open>The matcher on the shapes the stages use\<close>

lemma first_result_Some_iff: "first_result ic r x = Some y \<longleftrightarrow> (\<exists>ys. m ic r x = y # ys)"
  by (auto simp: first_result_def split: list.splits)

lemma first_result_None_iff: "first_result ic r x = None \<longleftrightarrow> m ic r x = []"
  by (auto simp: first_result_def split: list.splits)

lemma first_result_Str:
  "first_result ic (Str p) (c, s) = (if str_match ic p s then Some (c, drop (length p) s) else None)"
  by (simp add: first_result_def m.simps(1))

lemma first_result_Seq:
  "first_result ic a x = Some y \<Longrightarrow> first_result ic b y = Some z
     \<Longrightarrow> first_result ic (Seq a b) x = Some z"
  by (cases x) (auto simp: first_result_Some_iff m.simps(3))

lemma first_result_Seq_None:
  "first_result ic a x = None \<Longrightarrow> first_result ic (Seq a b) x = None"
  by (cases x) (auto simp: first_result_None_iff m.simps(3))

lemma first_result_Group:
  "first_result ic r (c, s) = Some (c', s')
     \<Longrightarrow> first_result ic (Group n r) (c, s) = Some ((n, take (length s - length s') s) # c', s')"
  by (auto simp: first_result_Some_iff m.simps(7))

lemma m_Seq_Str:
  "m ic (Seq (Str p) r) (c, s) = (if str_match ic p s then m ic r (c, drop (length p) s) else [])"
  by (simp add: m.simps(1,3))

lemma m_Seq_Star_Cons:
  "m ic (Seq (Star (Cls k)) r) (c, a # s) =
     (if in_class k a then m ic (Seq (Star (Cls k)) r) (c, s) else []) @ m ic r (c, a # s)"
  by (simp add: m.simps(5) [of ic "Cls k" c "a # s"] m.simps(2,3))

lemma m_Seq_Star_Nil: "m ic (Seq (Star (Cls k)) r) (c, []) = m ic r (c, [])"
  by (simp add: m.simps(5) [of ic "Cls k" c "[]"] m.simps(2,3))

lemma m_Seq_LazyStar_Cons:
  "m ic (Seq (LazyStar (Cls k)) r) (c, a # s) =
     m ic r (c, a # s) @ (if in_class k a then m ic (Seq (LazyStar (Cls k)) r) (c, s) else [])"
  by (simp add: m.simps(6) [of ic "Cls k" c "a # s"] m.simps(2,3))

lemma m_Seq_LazyStar_Nil: "m ic (Seq (LazyStar (Cls k)) r) (c, []) = m ic r (c, [])"
  by (simp add: m.simps(6) [of ic "Cls k" c "[]"] m.simps(2,3))

lemma m_Star_Cls_Cons:
  "m ic (Star (Cls k)) (c, a # s) = (if in_class k a then m ic (Star (Cls k)) (c, s) else []) @ [(c, a # s)]"
  by (simp add: m.simps(5) [of ic "Cls k" c "a # s"] m.simps(2))

lemma m_Star_Cls_Nil: "m ic (Star (Cls k)) (c, []) = [(c, [])]"
  by (simp add: m.simps(5) [of ic "Cls k" c "[]"] m.simps(2))

lemma first_result_Star_Cls:
  "first_result ic (Star (Cls k)) (c, s) = Some (c, dropWhile (in_class k) s)"
proof (induction s)
  case Nil
  then show ?case by (simp add: first_result_def m_Star_Cls_Nil)
next
  case (Cons a s)
  then show ?case
    by (auto simp: first_result_def m_Star_Cls_Cons split: list.splits)
qed

section \<open>Searching with a regular expression\<close>

lemma exec_from_Nil:
  "exec_from ic r i [] =
     (case first_result ic r ([], []) of
        None \<Rightarrow> None
      | Some y \<Rightarrow> Some \<lparr>index = i, matched = [], groups = fst y\<rparr>)"
  by (simp add: exec_from.simps [of ic r i "[]"] first_result_def split: list.splits)

lemma exec_from_Cons:
  "exec_from ic r i (a # s) =
     (case first_result ic r ([], a # s) of
        None \<Rightarrow> exec_from ic r (Suc i) s
      | Some y \<Rightarrow> Some \<lparr>index = i, matched = take (length (a # s) - length (snd y)) (a # s), groups = fst y\<rparr>)"
  by (simp add: exec_from.simps [of ic r i "a # s"] first_result_def split: list.splits)

lemma exec_from_found:
  "n \<le> length s \<Longrightarrow> \<forall>j<n. first_result ic r ([], drop j s) = None
     \<Longrightarrow> first_result ic r ([], drop n s) = Some y
     \<Longrightarrow> exec_from ic r i s =
           Some \<lparr>index = i + n, matched = take (length s - n - length (snd y)) (drop n s), groups = fst y\<rparr>"
proof (induction s arbitrary: i n)
  case Nil
  then show ?case by (simp add: exec_from_Nil)
next
  case (Cons a s)
  show ?case
  proof (cases n)
    case 0
    with Cons.prems show ?thesis by (simp add: exec_from_Cons)
  next
    case (Suc k)
    with Cons.prems have "first_result ic r ([], a # s) = None"
      by (metis drop0 zero_less_Suc)
    moreover from Suc Cons.prems have "\<forall>j<k. first_result ic r ([], drop j s) = None"
      by (metis drop_Suc_Cons Suc_less_eq)
    ultimately show ?thesis
      using Cons.IH [of k "Suc i"] Cons.prems Suc by (simp add: exec_from_Cons)
  qed
qed

lemma exec_from_none:
  "\<forall>j\<le>length s. first_result ic r ([], drop j s) = None \<Longrightarrow> exec_from ic r i s = None"
proof (induction s arbitrary: i)
  case Nil
  then show ?case by (simp add: exec_from_Nil)
next
  case (Cons a s)
  then show ?case
    by (simp add: exec_from_Cons all_le_Suc)
qed

lemma getSubstitution_plain: "CHR ''$'' \<notin> set repl \<Longrightarrow> getSubstitution mt s pos repl = repl"
  by (induction mt s pos repl rule: getSubstitution.induct) auto

section \<open>Replacing a tag\<close>

lemma matched_length:
  "length p \<le> length t \<Longrightarrow> take (length t - length (drop (length p) t)) t = take (length p) t"
  by simp

lemma first_result_Str_ci:
  "ascii p \<Longrightarrow> toLowerCase p = p \<Longrightarrow>
     first_result True (Str p) (c, drop j s) =
       (if starts_with (drop j (toLowerCase s)) p then Some (c, drop (length p) (drop j s)) else None)"
  by (simp add: first_result_Str str_match_True toLowerCase_drop)

lemma exec_Str_ci:
  assumes "ascii p" "toLowerCase p = p"
  shows "exec True (Str p) s =
     (case find_ci p s of
        None \<Rightarrow> None
      | Some n \<Rightarrow> Some \<lparr>index = n, matched = take (length p) (drop n s), groups = []\<rparr>)"
proof (cases "find_ci p s")
  case None
  then have "\<forall>j\<le>length s. first_result True (Str p) ([], drop j s) = None"
    using assms by (simp add: find_ci_def find_str_None_iff first_result_Str_ci)
  with None show ?thesis
    by (simp add: exec_def exec_from_none)
next
  case (Some n)
  then have n: "n \<le> length s" "starts_with (drop n (toLowerCase s)) p"
    "\<forall>j<n. \<not> starts_with (drop j (toLowerCase s)) p"
    by (simp_all add: find_ci_def find_str_Some_iff)
  from n(2) have len: "length p \<le> length s - n"
    by (simp add: starts_with_iff)
  have "exec_from True (Str p) 0 s =
      Some \<lparr>index = 0 + n,
            matched = take (length s - n - length (snd ([]::captures, drop (length p) (drop n s)))) (drop n s),
            groups = fst ([]::captures, drop (length p) (drop n s))\<rparr>"
    using n assms by (intro exec_from_found) (simp_all add: first_result_Str_ci)
  moreover have "length s - n - (length s - (n + length p)) = length p"
    using len by arith
  ultimately show ?thesis
    using Some by (simp add: exec_def add.commute)
qed

lemma replace_first_Str_ci:
  assumes "ascii p" "toLowerCase p = p" "CHR ''$'' \<notin> set repl"
  shows "replace_first True (Str p) repl s =
     (case find_ci p s of
        None \<Rightarrow> s
      | Some n \<Rightarrow> take n s @ repl @ drop (n + length p) s)"
proof (cases "find_ci p s")
  case None
  then show ?thesis
    by (simp add: replace_first_def exec_Str_ci [OF assms(1,2)])
next
  case (Some n)
  then have "length p \<le> length s - n"
    by (simp add: find_ci_def find_str_Some_iff starts_with_iff)
  with Some show ?thesis
    by (simp add: replace_first_def exec_Str_ci [OF assms(1,2)] getSubstitution_plain [OF assms(3)] min_absorb2)
qed

lemma includes_toLowerCase: "includes_str (toLowerCase s) p = (find_ci p s \<noteq> None)"
  by (simp add: includes_str_iff find_ci_def)

lemma cssToInject_no_dollar: "CHR ''$'' \<notin> set cssToInject"
  by (simp add: cssToInject_def)

lemma gameScript_no_dollar: "CHR ''$'' \<notin> set gameScript"
  by (simp add: gameScript_def)

lemmas lower_eval = toLowerCase_def toLowerCaseChar_def lower_code_def code_def char_of_def bit_0

lemma tag_head: "ascii ''</head>''" "toLowerCase ''</head>'' = ''</head>''"
  by (simp_all add: ascii_def lower_eval)

lemma tag_body: "ascii ''</body>''" "toLowerCase ''</body>'' = ''</body>''"
  by (simp_all add: ascii_def lower_eval)

lemma tag_script: "ascii ''</script>''" "toLowerCase ''</script>'' = ''</script>''"
  by (simp_all add: ascii_def lower_eval)

lemma hideBodyText_eq:
  "hideBodyText html =
     (case find_ci ''</head>'' html of
        Some i \<Rightarrow> take i html @ cssToInject @ ''</head>'' @ drop (i + 7) html
      | None \<Rightarrow>
          (case find_ci ''</body>'' html of
             Some i \<Rightarrow> take i html @ cssToInject @ ''</body>'' @ drop (i + 7) html
           | None \<Rightarrow> html @ cssToInject))"
proof -
  have d: "CHR ''$'' \<notin> set (cssToInject @ ''</head>'')" "CHR ''$'' \<notin> set (cssToInject @ ''</body>'')"
    using cssToInject_no_dollar by simp_all
  have l: "length ''</head>'' = 7" "length ''</body>'' = 7"
    by simp_all
  show ?thesis
    unfolding hideBodyText_def includes_toLowerCase
      replace_first_Str_ci [OF tag_head d(1), unfolded l] replace_first_Str_ci [OF tag_body d(2), unfolded l]
    by (simp split: option.splits)
qed

lemma find_ci_bound: "find_ci p s = Some i \<Longrightarrow> i + length p \<le> length s"
  by (auto simp: find_ci_def find_str_Some_iff starts_with_iff)

lemma length_hideBodyText: "length (hideBodyText html) = length html + length cssToInject"
proof -
  have "find_ci ''</head>'' html = Some i \<Longrightarrow> i + 7 \<le> length html" for i
    using find_ci_bound [of "''</head>''" html i] by simp
  moreover have "find_ci ''</body>'' html = Some i \<Longrightarrow> i + 7 \<le> length html" for i
    using find_ci_bound [of "''</body>''" html i] by simp
  ultimately show ?thesis
    unfolding hideBodyText_eq by (auto split: option.splits)
qed

section \<open>The last closing script tag\<close>

lemma m_Star_Any_Str_empty:
  "(m ic (Seq (Star (Cls AnyChar)) (Str p)) (c, t) = []) = (\<forall>j\<le>length t. \<not> str_match ic p (drop j t))"
  by (induction t) (auto simp: m_Seq_Star_Cons m_Seq_Star_Nil all_le_Suc m.simps(1))

lemma first_result_lastScriptTag:
  "first_result True lastScriptTag (c, s) =
     (if starts_with (toLowerCase s) ''</script>''
         \<and> find_str ''</script>'' (drop 9 (toLowerCase s)) = None
      then Some (c, drop 9 s) else None)"
proof -
  have sm: "str_match True ''</script>'' t = starts_with (toLowerCase t) ''</script>''" for t
    using str_match_True [OF tag_script(1), of t] by (simp add: tag_script(2))
  have l9: "length ''</script>'' = 9"
    by simp
  show ?thesis
    unfolding first_result_def lastScriptTag_def m_Seq_Str m.simps(8) m_Star_Any_Str_empty l9 sm
      find_str_None_iff
    by (simp add: toLowerCase_drop)
qed

lemma no_overlap:
  assumes "starts_with (drop j s) p" "starts_with (drop i s) p" "j < i" "p \<noteq> []"
    and "hd p \<notin> set (tl p)"
  shows "j + length p \<le> i"
proof (rule ccontr)
  assume "\<not> j + length p \<le> i"
  then have k: "i - j < length p" "0 < i - j" using assms(3) by arith+
  from assms(1) have tj: "take (length p) (drop j s) = p" "length p \<le> length s - j"
    by (simp_all add: starts_with_iff)
  from assms(2) have ti: "take (length p) (drop i s) = p" "length p \<le> length s - i"
    by (simp_all add: starts_with_iff)
  from assms(4) ti(2) have il: "i < length s"
    by (cases p) auto
  with assms(3) have jl: "j \<le> length s"
    by simp
  have "p ! (i - j) = take (length p) (drop j s) ! (i - j)"
    by (simp add: tj(1))
  also have "\<dots> = s ! i"
    using k assms(3) jl by simp
  also have "\<dots> = take (length p) (drop i s) ! 0"
    using assms(4) il by simp
  also have "\<dots> = hd p"
    using assms(4) by (simp add: ti(1) hd_conv_nth)
  finally have "p ! (i - j) = hd p" .
  moreover have "p ! (i - j) \<in> set (tl p)"
    using k assms(4) by (cases p) (auto simp: nth_Cons' )
  ultimately show False using assms(5) by simp
qed

lemma exec_lastScriptTag:
  "exec True lastScriptTag s =
     (case find_last_ci ''</script>'' s of
        None \<Rightarrow> None
      | Some n \<Rightarrow> Some \<lparr>index = n, matched = take 9 (drop n s), groups = []\<rparr>)"
proof (cases "find_last_ci ''</script>'' s")
  case None
  then have no: "\<forall>j\<le>length s. \<not> starts_with (drop j (toLowerCase s)) ''</script>''"
    by (simp add: find_last_ci_def find_last_None_iff)
  have "\<forall>j\<le>length s. first_result True lastScriptTag ([], drop j s) = None"
    using no by (simp add: first_result_lastScriptTag toLowerCase_drop)
  with None show ?thesis
    by (simp add: exec_def exec_from_none)
next
  case (Some n)
  let ?t = "toLowerCase s"
  from Some have n: "n \<le> length s" "starts_with (drop n ?t) ''</script>''"
    "\<forall>j\<le>length s. n < j \<longrightarrow> \<not> starts_with (drop j ?t) ''</script>''"
    by (simp_all add: find_last_ci_def find_last_Some_iff)
  from n(2) have len: "9 \<le> length s - n"
    by (simp add: starts_with_iff)
  have before: "\<forall>j<n. first_result True lastScriptTag ([], drop j s) = None"
  proof (intro allI impI)
    fix j assume j: "j < n"
    show "first_result True lastScriptTag ([], drop j s) = None"
    proof (cases "starts_with (drop j ?t) ''</script>''")
      case False
      then show ?thesis
        by (simp add: first_result_lastScriptTag toLowerCase_drop)
    next
      case True
      have "j + length ''</script>'' \<le> n"
        using True n(2) j by (intro no_overlap [of j ?t _ n]) simp_all
      then have "9 + j \<le> n"
        by simp
      then obtain k where k: "n = k + (9 + j)"
        using le_Suc_ex [of "9 + j" n] by (auto simp: add.commute)
      with n(1) have "k \<le> length (drop 9 (drop j ?t))"
        by simp
      moreover from n(2) k have "starts_with (drop k (drop 9 (drop j ?t))) ''</script>''"
        by simp
      ultimately have "find_str ''</script>'' (drop 9 (drop j ?t)) \<noteq> None"
        unfolding find_str_None_iff by blast
      then show ?thesis
        by (simp add: first_result_lastScriptTag toLowerCase_drop)
    qed
  qed
  have at: "first_result True lastScriptTag ([], drop n s) = Some ([], drop 9 (drop n s))"
  proof -
    have "\<not> starts_with (drop k (drop 9 (drop n ?t))) ''</script>''"
      if "k \<le> length (drop 9 (drop n ?t))" for k
    proof -
      from that len have "k + (9 + n) \<le> length s" "n < k + (9 + n)" by simp_all
      with n(3) show ?thesis by simp
    qed
    then have "find_str ''</script>'' (drop 9 (drop n ?t)) = None"
      unfolding find_str_None_iff by blast
    with n(2) show ?thesis
      by (simp add: first_result_lastScriptTag toLowerCase_drop)
  qed
  have "exec_from True lastScriptTag 0 s =
      Some \<lparr>index = 0 + n,
            matched = take (length s - n - length (snd ([]::captures, drop 9 (drop n s)))) (drop n s),
            groups = fst ([]::captures, drop 9 (drop n s))\<rparr>"
    using n(1) before at by (rule exec_from_found)
  moreover have "length s - n - (length s - (n + 9)) = 9"
    using len by arith
  ultimately show ?thesis
    using Some by (simp add: exec_def add.commute)
qed

lemma find_last_ci_bound: "find_last_ci p s = Some i \<Longrightarrow> i + length p \<le> length s"
  by (auto simp: find_last_ci_def find_last_Some_iff starts_with_iff)

lemma injectGameMode_eq:
  \<open>injectGameMode html =
     (case find_last_ci ''</script>'' html of
        None \<Rightarrow> html @ ''<script type="module">'' @ gameScript @ ''</script>''
      | Some i \<Rightarrow> take i html @ (CHR 0x0A # gameScript @ [CHR 0x0A]) @ ''</script>'' @ drop (i + 9) html)\<close>
proof (cases "find_last_ci ''</script>'' html")
  case None
  then show ?thesis
    by (simp add: injectGameMode_def exec_lastScriptTag)
next
  case (Some i)
  have d: "CHR ''$'' \<notin> set (CHR 0x0A # gameScript @ CHR 0x0A # ''</script>'')"
    using gameScript_no_dollar by simp
  from Some have "9 \<le> length html - i"
    using find_last_ci_bound [of "''</script>''" html i] by simp
  with Some show ?thesis
    by (simp add: injectGameMode_def replace_first_def exec_lastScriptTag
        getSubstitution_plain [OF d] min_absorb2)
qed

section \<open>Where an inserted block leaves the tags\<close>

lemma starts_with_append_long: "length p \<le> length x \<Longrightarrow> starts_with (x @ t) p = starts_with x p"
  by (simp add: starts_with_iff)

lemma find_str_window:
  "find_str p (a @ p @ t) = Some (length a) \<longleftrightarrow> (\<forall>j<length a. \<not> starts_with (drop j (a @ p)) p)"
proof -
  have "starts_with (drop j (a @ p @ t)) p = starts_with (drop j (a @ p)) p" if "j < length a" for j
    using that starts_with_append_long [of p "drop j a @ p" t] by simp
  then show ?thesis
    by (simp add: find_str_Some_iff)
qed

lemma find_str_split:
  assumes "find_str p s = Some i"
  shows "s = take i s @ p @ drop (i + length p) s" "find_str p (take i s @ p) = Some i" "i \<le> length s"
proof -
  from assms have i: "i \<le> length s" "starts_with (drop i s) p"
    "\<forall>j<i. \<not> starts_with (drop j s) p"
    by (simp_all add: find_str_Some_iff)
  from i(2) have "take (length p) (drop i s) = p"
    by (simp add: starts_with_iff)
  then have "drop i s = p @ drop (length p) (drop i s)"
    by (metis append_take_drop_id)
  then have "take i s @ p @ drop (i + length p) s = take i s @ drop i s"
    by (simp add: add.commute)
  then show s: "s = take i s @ p @ drop (i + length p) s"
    by simp
  show "i \<le> length s" by (rule i(1))
  have "find_str p (take i s @ p @ drop (i + length p) s) = Some (length (take i s))"
    using assms s i(1) by (simp add: min_absorb2)
  then have "find_str p (take i s @ p @ []) = Some (length (take i s))"
    unfolding find_str_window .
  then show "find_str p (take i s @ p) = Some i"
    using i(1) by (simp add: min_absorb2)
qed

lemma find_str_insert:
  assumes a: "find_str p (a @ p) = Some (length a)"
    and b: "find_str p (b @ p) = Some (length b)"
    and ne: "b \<noteq> []" "hd b \<notin> set (tl p)"
  shows "find_str p (a @ b @ p @ t) = Some (length a + length b)"
proof -
  from a have wa: "\<forall>j<length a. \<not> starts_with (drop j (a @ p)) p"
    using find_str_window [of p a "[]"] by simp
  from b have wb: "\<forall>j<length b. \<not> starts_with (drop j (b @ p)) p"
    using find_str_window [of p b "[]"] by simp
  have "\<not> starts_with (drop j ((a @ b) @ p)) p" if j: "j < length (a @ b)" for j
  proof (cases "j < length a")
    case False
    then have e: "drop j a = []"
      by simp
    have "drop j ((a @ b) @ p) = drop (j - length a) (b @ p)"
      by (simp only: append_assoc drop_append [of j a] e append_Nil)
    moreover have "j - length a < length b"
      using False j by simp
    ultimately show ?thesis
      using wb by (simp only:) blast
  next
    case True
    show ?thesis
    proof
      assume sw0: "starts_with (drop j ((a @ b) @ p)) p"
      let ?d = "drop j a"
      from True have d: "?d \<noteq> []" "drop j ((a @ b) @ p) = ?d @ b @ p" "drop j (a @ p) = ?d @ p"
        by simp_all
      from sw0 have sw: "starts_with (?d @ b @ p) p"
        by (simp only: d(2))
      show False
      proof (cases "length p \<le> length ?d")
        case True
        from sw have "starts_with ?d p"
          by (simp only: starts_with_append_long [OF True])
        then have "starts_with (?d @ p) p"
          by (simp only: starts_with_append_long [OF True])
        with wa \<open>j < length a\<close> show False
          by (simp only: d(3) [symmetric])
      next
        case False
        then have k: "length ?d < length p" by simp
        from sw have "take (length p) (?d @ b @ p) = p"
          unfolding starts_with_iff by (rule conjunct2)
        then have "p ! length ?d = (?d @ b @ p) ! length ?d"
          using k by (metis nth_take)
        also have "\<dots> = hd b"
          using ne(1) by (simp add: nth_append hd_conv_nth)
        finally have "p ! length ?d = hd b" .
        moreover have "p ! length ?d \<in> set (tl p)"
          using k d(1) by (cases p) (auto simp: nth_Cons')
        ultimately show False using ne(2) by simp
      qed
    qed
  qed
  then show ?thesis
    using find_str_window [of p "a @ b" t] by simp
qed

lemma find_ci_after_insert:
  assumes "find_ci p s = Some i" "toLowerCase p = p"
    and "find_str p (toLowerCase b @ p) = Some (length b)" "b \<noteq> []" "hd (toLowerCase b) \<notin> set (tl p)"
  shows "find_ci p (take i s @ b @ p @ drop (i + length p) s) = Some (i + length b)"
proof -
  let ?t = "toLowerCase s"
  from assms(1) have f: "find_str p ?t = Some i"
    by (simp add: find_ci_def)
  note sp = find_str_split [OF f]
  have "find_str p (take i ?t @ toLowerCase b @ p @ drop (i + length p) ?t)
      = Some (length (take i ?t) + length (toLowerCase b))"
    using sp(2,3) assms(3,4,5) by (intro find_str_insert) (simp_all add: min_absorb2 toLowerCase_def)
  then show ?thesis
    using sp(3) by (simp add: find_ci_def toLowerCase_take toLowerCase_drop assms(2) min_absorb2)
qed

lemma find_last_suffix:
  "find_last p (a @ p @ t) = Some (length a) \<longleftrightarrow>
     (\<forall>j\<le>length (p @ t). 0 < j \<longrightarrow> \<not> starts_with (drop j (p @ t)) p)"
proof -
  have "(\<forall>j\<le>length (a @ p @ t). length a < j \<longrightarrow> \<not> starts_with (drop j (a @ p @ t)) p)
      = (\<forall>j\<le>length (p @ t). 0 < j \<longrightarrow> \<not> starts_with (drop j (p @ t)) p)" (is "?L = ?R")
  proof
    assume l: ?L
    show ?R
    proof (intro allI impI)
      fix j assume "j \<le> length (p @ t)" "0 < j"
      then have "length a + j \<le> length (a @ p @ t)" "length a < length a + j" by simp_all
      with l have "\<not> starts_with (drop (length a + j) (a @ p @ t)) p" by blast
      then show "\<not> starts_with (drop j (p @ t)) p" by simp
    qed
  next
    assume r: ?R
    show ?L
    proof (intro allI impI)
      fix j assume j: "j \<le> length (a @ p @ t)" "length a < j"
      then have "j - length a \<le> length (p @ t)" "0 < j - length a" by simp_all
      with r have "\<not> starts_with (drop (j - length a) (p @ t)) p" by blast
      with j(2) show "\<not> starts_with (drop j (a @ p @ t)) p" by simp
    qed
  qed
  then show ?thesis
    by (simp add: find_last_Some_iff)
qed

lemma find_last_split:
  assumes "find_last p s = Some i"
  shows "s = take i s @ p @ drop (i + length p) s" "i \<le> length s"
proof -
  from assms have i: "i \<le> length s" "starts_with (drop i s) p"
    by (simp_all add: find_last_Some_iff)
  from i(2) have "take (length p) (drop i s) = p"
    by (simp add: starts_with_iff)
  then have "drop i s = p @ drop (length p) (drop i s)"
    by (metis append_take_drop_id)
  then have "take i s @ p @ drop (i + length p) s = take i s @ drop i s"
    by (simp add: add.commute)
  then show "s = take i s @ p @ drop (i + length p) s"
    by simp
  show "i \<le> length s" by (rule i(1))
qed

lemma find_last_ci_after_insert:
  assumes "find_last_ci p s = Some i" "toLowerCase p = p"
  shows "find_last_ci p (take i s @ b @ p @ drop (i + length p) s) = Some (i + length b)"
proof -
  let ?t = "toLowerCase s"
  from assms(1) have f: "find_last p ?t = Some i"
    by (simp add: find_last_ci_def)
  note sp = find_last_split [OF f]
  have "find_last p (take i ?t @ p @ drop (i + length p) ?t) = Some (length (take i ?t))"
    using f sp by (simp add: min_absorb2)
  then have "find_last p ((take i ?t @ toLowerCase b) @ p @ drop (i + length p) ?t)
      = Some (length (take i ?t @ toLowerCase b))"
    unfolding find_last_suffix .
  then show ?thesis
    using sp(2) by (simp add: find_last_ci_def toLowerCase_take toLowerCase_drop assms(2) min_absorb2)
qed

lemma find_last_ci_at_end:
  assumes "toLowerCase p = p" "p \<noteq> []"
  shows "find_last_ci p (a @ p) = Some (length a)"
proof -
  have "\<not> starts_with (drop j (p @ [])) p" if "0 < j" for j
    using that assms(2) by (simp add: starts_with_iff)
  then have "find_last p (toLowerCase a @ p @ []) = Some (length (toLowerCase a))"
    unfolding find_last_suffix by blast
  then show ?thesis
    by (simp add: find_last_ci_def assms(1))
qed

lemma cssToInject_lower: "toLowerCase cssToInject = cssToInject"
  by (simp add: cssToInject_def lower_eval)

lemma css_then_head:
  "find_str ''</head>'' (toLowerCase cssToInject @ ''</head>'') = Some (length cssToInject)"
  "find_str ''</body>'' (toLowerCase cssToInject @ ''</body>'') = Some (length cssToInject)"
  "cssToInject \<noteq> []"
  "hd (toLowerCase cssToInject) \<notin> set (tl ''</head>'')"
  "hd (toLowerCase cssToInject) \<notin> set (tl ''</body>'')"
  unfolding cssToInject_lower by (simp_all add: cssToInject_def)

lemma length_cssToInject: "length cssToInject = 316"
  by (simp add: cssToInject_def)

lemma len_tags: "length ''</head>'' = 7" "length ''</body>'' = 7" "length ''</script>'' = 9"
  by simp_all

lemma hideBodyText_head_again:
  assumes "find_ci ''</head>'' html = Some i"
  shows "find_ci ''</head>'' (hideBodyText html) = Some (i + length cssToInject)"
  using find_ci_after_insert [OF assms tag_head(2) css_then_head(1,3,4), unfolded len_tags] assms
  by (simp add: hideBodyText_eq)

lemma hideBodyText_body_again:
  assumes "find_ci ''</head>'' html = None" "find_ci ''</body>'' html = Some i"
  shows "find_ci ''</body>'' (hideBodyText html) = Some (i + length cssToInject)"
  using find_ci_after_insert [OF assms(2) tag_body(2) css_then_head(2,3,5), unfolded len_tags] assms
  by (simp add: hideBodyText_eq)

lemma injectGameMode_tag_again:
  assumes "find_last_ci ''</script>'' html = Some i"
  shows "find_last_ci ''</script>'' (injectGameMode html) = Some (i + (length gameScript + 2))"
  using find_last_ci_after_insert [OF assms tag_script(2), of "CHR 0x0A # gameScript @ [CHR 0x0A]",
      unfolded len_tags] assms
  by (simp add: injectGameMode_eq)

lemma injectGameMode_tag_new:
  assumes "find_last_ci ''</script>'' html = None"
  shows \<open>find_last_ci ''</script>'' (injectGameMode html)
    = Some (length html + (22 + length gameScript))\<close>
proof -
  have \<open>find_last_ci ''</script>'' ((html @ ''<script type="module">'' @ gameScript) @ ''</script>'')
      = Some (length (html @ ''<script type="module">'' @ gameScript))\<close>
    by (rule find_last_ci_at_end [OF tag_script(2)]) simp
  with assms show ?thesis
    by (simp add: injectGameMode_eq)
qed

lemma take_prefix: "length a = n \<Longrightarrow> take n (a @ r) = a"
  by simp

lemma drop_prefix: "length a = n \<Longrightarrow> drop n (a @ r) = r"
  by simp

section \<open>The claims about the visibility patcher and the controller injector\<close>

text \<open>
  C3.  For every input, the output of \<open>hideBodyText\<close> is as long as the input and the CSS block
  together.  The block stands immediately before the first \<^verbatim>\<open></head>\<close> (regardless of case) if
  there is one, else immediately before the first \<^verbatim>\<open></body>\<close> if there is one, else at the very
  end.  The tag the block stands before is again the first such tag of the output.
\<close>

theorem hideBodyText_places_css:
  "length (hideBodyText html) = length html + length cssToInject
   \<and> (\<forall>i. find_ci ''</head>'' html = Some i \<longrightarrow>
          hideBodyText html = take i html @ cssToInject @ ''</head>'' @ drop (i + 7) html
          \<and> find_ci ''</head>'' (hideBodyText html) = Some (i + length cssToInject))
   \<and> (\<forall>i. find_ci ''</head>'' html = None \<and> find_ci ''</body>'' html = Some i \<longrightarrow>
          hideBodyText html = take i html @ cssToInject @ ''</body>'' @ drop (i + 7) html
          \<and> find_ci ''</body>'' (hideBodyText html) = Some (i + length cssToInject))
   \<and> (find_ci ''</head>'' html = None \<and> find_ci ''</body>'' html = None \<longrightarrow>
          hideBodyText html = html @ cssToInject)"
proof (intro conjI allI impI)
  show "length (hideBodyText html) = length html + length cssToInject"
    by (rule length_hideBodyText)
next
  fix i assume "find_ci ''</head>'' html = Some i"
  then show "hideBodyText html = take i html @ cssToInject @ ''</head>'' @ drop (i + 7) html"
    by (simp add: hideBodyText_eq)
next
  fix i assume "find_ci ''</head>'' html = Some i"
  then show "find_ci ''</head>'' (hideBodyText html) = Some (i + length cssToInject)"
    by (rule hideBodyText_head_again)
next
  fix i assume "find_ci ''</head>'' html = None \<and> find_ci ''</body>'' html = Some i"
  then show "hideBodyText html = take i html @ cssToInject @ ''</body>'' @ drop (i + 7) html"
    by (simp add: hideBodyText_eq)
next
  fix i assume "find_ci ''</head>'' html = None \<and> find_ci ''</body>'' html = Some i"
  then show "find_ci ''</body>'' (hideBodyText html) = Some (i + length cssToInject)"
    by (simp add: hideBodyText_body_again)
next
  assume "find_ci ''</head>'' html = None \<and> find_ci ''</body>'' html = None"
  then show "hideBodyText html = html @ cssToInject"
    by (simp add: hideBodyText_eq)
qed

theorem hideBodyText_places_css_witness:
  "hideBodyText ''<p></HEAD><body></body>'' = ''<p>'' @ cssToInject @ ''</head><body></body>''
   \<and> length (hideBodyText ''<p></HEAD><body></body>'') = 23 + length cssToInject
   \<and> hideBodyText ''<body>x</BODY>'' = ''<body>x'' @ cssToInject @ ''</body>''
   \<and> hideBodyText ''<canvas>'' = ''<canvas>'' @ cssToInject"
proof -
  have h1: "find_ci ''</head>'' ''<p></HEAD><body></body>'' = Some 3"
    by (simp add: find_ci_def lower_eval)
  have h2: "find_ci ''</head>'' ''<body>x</BODY>'' = None \<and> find_ci ''</body>'' ''<body>x</BODY>'' = Some 7"
    by (simp add: find_ci_def lower_eval)
  have h3: "find_ci ''</head>'' ''<canvas>'' = None \<and> find_ci ''</body>'' ''<canvas>'' = None"
    by (simp add: find_ci_def lower_eval)
  show ?thesis
    using hideBodyText_places_css [of "''<p></HEAD><body></body>''"]
      hideBodyText_places_css [of "''<body>x</BODY>''"]
      hideBodyText_places_css [of "''<canvas>''"] h1 h2 h3
    by simp
qed

text \<open>
  C1.  When the input has a closing \<^verbatim>\<open></script>\<close> tag (regardless of case), \<open>injectGameMode\<close>
  puts the controller script, with a line feed before and after it, immediately before the last
  one, the occurrence that no other follows; the text before that tag and the text after it stay
  as they are, and the tag after the script is again the last closing script tag of the output.
  When the input has no such tag, the output is the input followed by a new
  \<^verbatim>\<open><script type="module">\<close> element that holds the controller script.
\<close>

theorem injectGameMode_splices:
  \<open>(\<forall>i. find_last_ci ''</script>'' html = Some i \<longrightarrow>
        injectGameMode html
          = take i html @ (CHR 0x0A # gameScript @ [CHR 0x0A]) @ ''</script>'' @ drop (i + 9) html
        \<and> find_last_ci ''</script>'' (injectGameMode html) = Some (i + (length gameScript + 2)))
   \<and> (find_last_ci ''</script>'' html = None \<longrightarrow>
        injectGameMode html = html @ ''<script type="module">'' @ gameScript @ ''</script>'')\<close>
proof (intro conjI allI impI)
  fix i assume "find_last_ci ''</script>'' html = Some i"
  then show "injectGameMode html
      = take i html @ (CHR 0x0A # gameScript @ [CHR 0x0A]) @ ''</script>'' @ drop (i + 9) html"
    by (simp add: injectGameMode_eq)
next
  fix i assume "find_last_ci ''</script>'' html = Some i"
  then show "find_last_ci ''</script>'' (injectGameMode html) = Some (i + (length gameScript + 2))"
    by (rule injectGameMode_tag_again)
next
  assume "find_last_ci ''</script>'' html = None"
  then show \<open>injectGameMode html = html @ ''<script type="module">'' @ gameScript @ ''</script>''\<close>
    by (simp add: injectGameMode_eq)
qed

theorem injectGameMode_splices_witness:
  \<open>injectGameMode ''<script>a</script><script>b</SCRIPT>c''
     = ''<script>a</script><script>b'' @ (CHR 0x0A # gameScript @ [CHR 0x0A]) @ ''</script>c''
   \<and> injectGameMode ''<b>hi</b>'' = ''<b>hi</b><script type="module">'' @ gameScript @ ''</script>''\<close>
proof -
  have h1: "find_last_ci ''</script>'' ''<script>a</script><script>b</SCRIPT>c'' = Some 27"
    by (simp add: find_last_ci_def lower_eval)
  have h2: "find_last_ci ''</script>'' ''<b>hi</b>'' = None"
    by (simp add: find_last_ci_def lower_eval)
  show ?thesis
    using injectGameMode_splices [of "''<script>a</script><script>b</SCRIPT>c''"]
      injectGameMode_splices [of "''<b>hi</b>''"] h1 h2
    by simp
qed

text \<open>
  C10.  Both stages write the tag they splice against anew, in lower case.  With the first
  \<^verbatim>\<open></head>\<close> (or, without one, the first \<^verbatim>\<open></body>\<close>) at index \<open>i\<close>, the output of
  \<open>hideBodyText\<close> has the lower-case tag right after the CSS block; with the last \<^verbatim>\<open></script>\<close> at
  index \<open>i\<close>, the output of \<open>injectGameMode\<close> has the lower-case tag right after the script.
  So when the tag of the input is not in lower case, the output is not the input with the
  block put in before the tag: the tag has changed as well.
\<close>

theorem tag_written_in_lower_case:
  "(\<forall>i. find_ci ''</head>'' html = Some i \<longrightarrow>
        take 7 (drop (i + length cssToInject) (hideBodyText html)) = ''</head>''
        \<and> (take 7 (drop i html) \<noteq> ''</head>'' \<longrightarrow>
             hideBodyText html \<noteq> take i html @ cssToInject @ drop i html))
   \<and> (\<forall>i. find_ci ''</head>'' html = None \<and> find_ci ''</body>'' html = Some i \<longrightarrow>
        take 7 (drop (i + length cssToInject) (hideBodyText html)) = ''</body>''
        \<and> (take 7 (drop i html) \<noteq> ''</body>'' \<longrightarrow>
             hideBodyText html \<noteq> take i html @ cssToInject @ drop i html))
   \<and> (\<forall>i. find_last_ci ''</script>'' html = Some i \<longrightarrow>
        take 9 (drop (i + (length gameScript + 2)) (injectGameMode html)) = ''</script>''
        \<and> (take 9 (drop i html) \<noteq> ''</script>'' \<longrightarrow>
             injectGameMode html \<noteq> take i html @ (CHR 0x0A # gameScript @ [CHR 0x0A]) @ drop i html))"
proof -
  have tagged: "take n (drop (length a + length b) (a @ b @ t @ r)) = t" if "length t = n" for a b t r :: string and n
    using that by simp
  have changed: "a @ b @ t @ drop n r \<noteq> a @ b @ r" if "take n r \<noteq> t" "length t = n" for a b t r :: string and n
  proof
    assume "a @ b @ t @ drop n r = a @ b @ r"
    then have "take n (t @ drop n r) = take n r" by simp
    with that show False by simp
  qed
  have head: "take 7 (drop (i + length cssToInject) (hideBodyText html)) = ''</head>''
      \<and> (take 7 (drop i html) \<noteq> ''</head>'' \<longrightarrow>
           hideBodyText html \<noteq> take i html @ cssToInject @ drop i html)"
    if f: "find_ci ''</head>'' html = Some i" for i
  proof -
    from f have i: "i \<le> length html"
      using find_ci_bound [OF f] by simp
    have e: "hideBodyText html = take i html @ cssToInject @ ''</head>'' @ drop (i + 7) html"
      using f by (simp add: hideBodyText_eq)
    have "take 7 (drop (length (take i html) + length cssToInject)
        (take i html @ cssToInject @ ''</head>'' @ drop (i + 7) html)) = ''</head>''"
      by (rule tagged) simp
    moreover have "take i html @ cssToInject @ ''</head>'' @ drop 7 (drop i html)
        \<noteq> take i html @ cssToInject @ drop i html" if "take 7 (drop i html) \<noteq> ''</head>''"
      using that by (intro changed) simp_all
    ultimately show ?thesis
      using i by (simp add: e min_absorb2 add.commute)
  qed
  have body: "take 7 (drop (i + length cssToInject) (hideBodyText html)) = ''</body>''
      \<and> (take 7 (drop i html) \<noteq> ''</body>'' \<longrightarrow>
           hideBodyText html \<noteq> take i html @ cssToInject @ drop i html)"
    if f: "find_ci ''</head>'' html = None \<and> find_ci ''</body>'' html = Some i" for i
  proof -
    from f have i: "i \<le> length html"
      using find_ci_bound [of "''</body>''" html i] by simp
    have e: "hideBodyText html = take i html @ cssToInject @ ''</body>'' @ drop (i + 7) html"
      using f by (simp add: hideBodyText_eq)
    have "take 7 (drop (length (take i html) + length cssToInject)
        (take i html @ cssToInject @ ''</body>'' @ drop (i + 7) html)) = ''</body>''"
      by (rule tagged) simp
    moreover have "take i html @ cssToInject @ ''</body>'' @ drop 7 (drop i html)
        \<noteq> take i html @ cssToInject @ drop i html" if "take 7 (drop i html) \<noteq> ''</body>''"
      using that by (intro changed) simp_all
    ultimately show ?thesis
      using i by (simp add: e min_absorb2 add.commute)
  qed
  have script: "take 9 (drop (i + (length gameScript + 2)) (injectGameMode html)) = ''</script>''
      \<and> (take 9 (drop i html) \<noteq> ''</script>'' \<longrightarrow>
           injectGameMode html \<noteq> take i html @ (CHR 0x0A # gameScript @ [CHR 0x0A]) @ drop i html)"
    if f: "find_last_ci ''</script>'' html = Some i" for i
  proof -
    let ?b = "CHR 0x0A # gameScript @ [CHR 0x0A]"
    from f have i: "i \<le> length html"
      using find_last_ci_bound [OF f] by simp
    have e: "injectGameMode html = take i html @ ?b @ ''</script>'' @ drop (i + 9) html"
      using f by (simp add: injectGameMode_eq)
    have "take 9 (drop (length (take i html) + length ?b)
        (take i html @ ?b @ ''</script>'' @ drop (i + 9) html)) = ''</script>''"
      by (rule tagged) simp
    moreover have "take i html @ ?b @ ''</script>'' @ drop 9 (drop i html)
        \<noteq> take i html @ ?b @ drop i html" if "take 9 (drop i html) \<noteq> ''</script>''"
      using that by (intro changed) simp_all
    ultimately show ?thesis
      using i by (simp add: e min_absorb2 add.commute)
  qed
  from head body script show ?thesis
    by blast
qed

theorem tag_written_in_lower_case_witness:
  "hideBodyText ''<p></HEAD>'' = ''<p>'' @ cssToInject @ ''</head>''
   \<and> hideBodyText ''<p></HEAD>'' \<noteq> ''<p>'' @ cssToInject @ ''</HEAD>''
   \<and> hideBodyText ''x</Body>'' \<noteq> ''x'' @ cssToInject @ ''</Body>''
   \<and> injectGameMode ''a</SCRIPT>'' \<noteq> ''a'' @ (CHR 0x0A # gameScript @ [CHR 0x0A]) @ ''</SCRIPT>''"
proof -
  have h1: "find_ci ''</head>'' ''<p></HEAD>'' = Some 3"
    by (simp add: find_ci_def lower_eval)
  have h2: "find_ci ''</head>'' ''x</Body>'' = None \<and> find_ci ''</body>'' ''x</Body>'' = Some 1"
    by (simp add: find_ci_def lower_eval)
  have h3: "find_last_ci ''</script>'' ''a</SCRIPT>'' = Some 1"
    by (simp add: find_last_ci_def lower_eval)
  have e: "hideBodyText ''<p></HEAD>'' = ''<p>'' @ cssToInject @ ''</head>''"
    using h1 by (simp add: hideBodyText_eq)
  show ?thesis
    using tag_written_in_lower_case [of "''<p></HEAD>''"]
      tag_written_in_lower_case [of "''x</Body>''"]
      tag_written_in_lower_case [of "''a</SCRIPT>''"] h1 h2 h3 e
    by simp
qed

text \<open>
  C8.  Neither stage is idempotent, and neither looks for a block that is already there.
  Applied twice to a text with a \<^verbatim>\<open></head>\<close>, \<open>hideBodyText\<close> leaves two copies of the CSS block
  before the tag, in a text that is longer than the input by twice the block; applied twice,
  \<open>injectGameMode\<close> leaves two copies of the controller script before the last closing script
  tag (the new one, when the input had none).  The text around the copies is that of the
  input.  For no input at all does a second application give back the result of the first.
\<close>

theorem stages_not_idempotent:
  \<open>(\<forall>i. find_ci ''</head>'' html = Some i \<longrightarrow>
        hideBodyText (hideBodyText html)
          = take i html @ cssToInject @ cssToInject @ ''</head>'' @ drop (i + 7) html
        \<and> length (hideBodyText (hideBodyText html)) = length html + 2 * length cssToInject)
   \<and> (\<forall>i. find_last_ci ''</script>'' html = Some i \<longrightarrow>
        injectGameMode (injectGameMode html)
          = take i html @ (CHR 0x0A # gameScript @ [CHR 0x0A]) @ (CHR 0x0A # gameScript @ [CHR 0x0A])
              @ ''</script>'' @ drop (i + 9) html)
   \<and> (find_last_ci ''</script>'' html = None \<longrightarrow>
        injectGameMode (injectGameMode html)
          = html @ ''<script type="module">'' @ gameScript @ (CHR 0x0A # gameScript @ [CHR 0x0A])
              @ ''</script>'')
   \<and> hideBodyText (hideBodyText html) \<noteq> hideBodyText html
   \<and> injectGameMode (injectGameMode html) \<noteq> injectGameMode html\<close>
proof -
  let ?b = "CHR 0x0A # gameScript @ [CHR 0x0A]"
  have head: "hideBodyText (hideBodyText html)
        = take i html @ cssToInject @ cssToInject @ ''</head>'' @ drop (i + 7) html
      \<and> length (hideBodyText (hideBodyText html)) = length html + 2 * length cssToInject"
    if f: "find_ci ''</head>'' html = Some i" for i
  proof -
    from f have i: "i \<le> length html"
      using find_ci_bound [OF f] by simp
    have e: "hideBodyText html = take i html @ cssToInject @ ''</head>'' @ drop (i + 7) html"
      using f by (simp add: hideBodyText_eq)
    have "hideBodyText (hideBodyText html)
        = take (i + length cssToInject) (hideBodyText html) @ cssToInject @ ''</head>''
            @ drop (i + length cssToInject + 7) (hideBodyText html)"
      using hideBodyText_head_again [OF f] by (simp add: hideBodyText_eq [of "hideBodyText html"])
    also have "take (i + length cssToInject) (hideBodyText html) = take i html @ cssToInject"
      using i by (simp add: e min_absorb2)
    also have "drop (i + length cssToInject + 7) (hideBodyText html) = drop (i + 7) html"
      using i by (simp add: e min_absorb2)
    finally have eq: "hideBodyText (hideBodyText html)
        = take i html @ cssToInject @ cssToInject @ ''</head>'' @ drop (i + 7) html"
      by simp
    have "length (hideBodyText (hideBodyText html)) = length html + 2 * length cssToInject"
      by (simp add: length_hideBodyText)
    with eq show ?thesis
      by (rule conjI)
  qed
  have script: "injectGameMode (injectGameMode html)
        = take i html @ ?b @ ?b @ ''</script>'' @ drop (i + 9) html"
    if f: "find_last_ci ''</script>'' html = Some i" for i
  proof -
    from f have i: "i \<le> length html"
      using find_last_ci_bound [OF f] by simp
    have e: "injectGameMode html = take i html @ ?b @ ''</script>'' @ drop (i + 9) html"
      using f by (simp add: injectGameMode_eq)
    have "injectGameMode (injectGameMode html)
        = take (i + (length gameScript + 2)) (injectGameMode html) @ ?b @ ''</script>''
            @ drop (i + (length gameScript + 2) + 9) (injectGameMode html)"
      using injectGameMode_tag_again [OF f] by (simp add: injectGameMode_eq [of "injectGameMode html"])
    also have "take (i + (length gameScript + 2)) (injectGameMode html) = take i html @ ?b"
      unfolding e using i by (intro take_prefix [of "take i html @ ?b", simplified append_assoc]) simp
    also have "drop (i + (length gameScript + 2) + 9) (injectGameMode html) = drop (i + 9) html"
      unfolding e using i
      by (intro drop_prefix [of "take i html @ ?b @ ''</script>''", simplified append_assoc]) simp
    finally show ?thesis
      by simp
  qed
  have fresh: \<open>injectGameMode (injectGameMode html)
        = html @ ''<script type="module">'' @ gameScript @ ?b @ ''</script>''\<close>
    if f: "find_last_ci ''</script>'' html = None"
  proof -
    have e: \<open>injectGameMode html = html @ ''<script type="module">'' @ gameScript @ ''</script>''\<close>
      using f by (simp add: injectGameMode_eq)
    have \<open>injectGameMode (injectGameMode html)
        = take (length html + (22 + length gameScript)) (injectGameMode html) @ ?b @ ''</script>''
            @ drop (length html + (22 + length gameScript) + 9) (injectGameMode html)\<close>
      using injectGameMode_tag_new [OF f] by (simp add: injectGameMode_eq [of "injectGameMode html"])
    also have \<open>take (length html + (22 + length gameScript)) (injectGameMode html)
        = html @ ''<script type="module">'' @ gameScript\<close>
      unfolding e
      by (intro take_prefix [of \<open>html @ ''<script type="module">'' @ gameScript\<close>, simplified append_assoc])
        simp
    also have "drop (length html + (22 + length gameScript) + 9) (injectGameMode html) = []"
      by (simp add: e)
    finally show ?thesis
      by simp
  qed
  have "length (hideBodyText (hideBodyText html)) \<noteq> length (hideBodyText html)"
    by (simp add: length_hideBodyText length_cssToInject)
  then have h: "hideBodyText (hideBodyText html) \<noteq> hideBodyText html"
    by metis
  have len: "length html < length (injectGameMode html)" for html
    using find_last_ci_bound [of "''</script>''" html]
    by (auto simp: injectGameMode_eq split: option.splits)
  have "length (injectGameMode (injectGameMode html)) \<noteq> length (injectGameMode html)"
    using len [of "injectGameMode html"] by simp
  then have g: "injectGameMode (injectGameMode html) \<noteq> injectGameMode html"
    by metis
  from head script fresh h g show ?thesis
    by blast
qed

theorem stages_not_idempotent_witness:
  \<open>hideBodyText (hideBodyText ''<p></HEAD>'') = ''<p>'' @ cssToInject @ cssToInject @ ''</head>''
   \<and> injectGameMode (injectGameMode ''a</script>b'')
       = ''a'' @ (CHR 0x0A # gameScript @ [CHR 0x0A]) @ (CHR 0x0A # gameScript @ [CHR 0x0A]) @ ''</script>b''
   \<and> injectGameMode (injectGameMode ''ab'')
       = ''ab<script type="module">'' @ gameScript @ (CHR 0x0A # gameScript @ [CHR 0x0A]) @ ''</script>''\<close>
proof -
  have h1: "find_ci ''</head>'' ''<p></HEAD>'' = Some 3"
    by (simp add: find_ci_def lower_eval)
  have h2: "find_last_ci ''</script>'' ''a</script>b'' = Some 1"
    by (simp add: find_last_ci_def lower_eval)
  have h3: "find_last_ci ''</script>'' ''ab'' = None"
    by (simp add: find_last_ci_def lower_eval)
  show ?thesis
    using stages_not_idempotent [of "''<p></HEAD>''"] stages_not_idempotent [of "''a</script>b''"]
      stages_not_idempotent [of "''ab''"] h1 h2 h3
    by simp
qed

section \<open>The extractor's two regular expressions\<close>

lemma first_result_append:
  "first_result ic r x = None \<Longrightarrow> m ic r' x' = m ic r x @ ys
     \<Longrightarrow> first_result ic r' x' = (case ys of [] \<Rightarrow> None | y # _ \<Rightarrow> Some y)"
  by (simp add: first_result_def split: list.splits)

lemma first_result_lazy_Str:
  assumes "\<And>t. str_match ic p t = starts_with (map h t) p"
  shows "first_result ic (Seq (LazyStar (Cls AnyChar)) (Str p)) (c, t)
    = map_option (\<lambda>k. (c, drop (k + length p) t)) (find_str p (map h t))"
proof (induction t)
  case Nil
  show ?case
    by (auto simp: first_result_def m_Seq_LazyStar_Nil m.simps(1) assms starts_with_iff)
next
  case (Cons a t)
  show ?case
  proof (cases "starts_with (map h (a # t)) p")
    case True
    then show ?thesis
      by (simp add: first_result_def m_Seq_LazyStar_Cons m.simps(1) assms)
  next
    case False
    then have "first_result ic (Seq (LazyStar (Cls AnyChar)) (Str p)) (c, a # t)
        = first_result ic (Seq (LazyStar (Cls AnyChar)) (Str p)) (c, t)"
      by (simp add: first_result_def m_Seq_LazyStar_Cons m.simps(1) assms)
    with False Cons show ?thesis
      by (simp add: option.map_comp comp_def)
  qed
qed

lemma marker_doctype: "ascii ''<!DOCTYPE html>''" "toLowerCase ''<!DOCTYPE html>'' = ''<!doctype html>''"
  by (simp_all add: ascii_def lower_eval)

lemma marker_html: "ascii ''<html''" "toLowerCase ''<html'' = ''<html''"
  by (simp_all add: ascii_def lower_eval)

lemma tag_html: "ascii ''</html>''" "toLowerCase ''</html>'' = ''</html>''"
  by (simp_all add: ascii_def lower_eval)

lemma len_html: "length ''</html>'' = 7"
  by simp

lemma markers_exclusive:
  assumes "starts_with t ''<!doctype html>''"
  shows "\<not> starts_with t ''<html''"
proof (cases t)
  case Nil
  with assms show ?thesis by simp
next
  case (Cons a t')
  with assms show ?thesis by (cases t') auto
qed

lemma first_result_htmlDocument:
  "first_result True htmlDocument ([], s) =
     (case opening_marker s of
        None \<Rightarrow> None
      | Some n \<Rightarrow>
          (case find_ci ''</html>'' (drop n s) of
             None \<Rightarrow> None
           | Some k \<Rightarrow> Some ([(1, take n s)], drop (n + k + 7) s)))"
proof -
  let ?T = "Seq (LazyStar (Cls AnyChar)) (Str ''</html>'')"
  have sm1: "str_match True ''<!DOCTYPE html>'' t = starts_with (toLowerCase t) ''<!doctype html>''" for t
    using str_match_True [OF marker_doctype(1), of t] by (simp add: marker_doctype(2))
  have sm2: "str_match True ''<html'' t = starts_with (toLowerCase t) ''<html''" for t
    using str_match_True [OF marker_html(1), of t] by (simp add: marker_html(2))
  have sm3: "str_match True ''</html>'' t = starts_with (toLowerCase t) ''</html>''" for t
    using str_match_True [OF tag_html(1), of t] by (simp add: tag_html(2))
  have lazy: "first_result True ?T (c, t)
      = map_option (\<lambda>k. (c, drop (k + 7) t)) (find_ci ''</html>'' t)" for c t
    using first_result_lazy_Str [of True "''</html>''" toLowerCaseChar c t,
        OF sm3 [unfolded toLowerCase_def], unfolded len_html]
    by (simp add: find_ci_def toLowerCase_def)
  have unfold: "m True htmlDocument ([], s)
      = (if starts_with (toLowerCase s) ''<!doctype html>''
         then m True ?T ([(1, take (length s - length (drop 15 s)) s)], drop 15 s) else [])
        @ (if starts_with (toLowerCase s) ''<html''
           then m True ?T ([(1, take (length s - length (drop 5 s)) s)], drop 5 s) else [])"
    by (simp add: htmlDocument_def m.simps(3) [of True "Group _ _"] m.simps(7) m.simps(4) m.simps(1)
        sm1 sm2 eval_nat_numeral)
  show ?thesis
  proof (cases "starts_with (toLowerCase s) ''<!doctype html>''")
    case True
    then have "15 \<le> length s"
      by (simp add: starts_with_iff)
    then have "take (length s - length (drop 15 s)) s = take 15 s"
      by simp
    with True markers_exclusive [OF True] have
      "m True htmlDocument ([], s) = m True ?T ([(1, take 15 s)], drop 15 s)"
      by (simp add: unfold)
    then have "first_result True htmlDocument ([], s)
        = first_result True ?T ([(1, take 15 s)], drop 15 s)"
      by (simp add: first_result_def)
    with True show ?thesis
      by (simp add: lazy opening_marker_def add.commute add.left_commute split: option.splits)
  next
    case False
    show ?thesis
    proof (cases "starts_with (toLowerCase s) ''<html''")
      case True
      then have "5 \<le> length s"
        by (simp add: starts_with_iff)
      then have "take (length s - length (drop 5 s)) s = take 5 s"
        by simp
      with True False have
        "m True htmlDocument ([], s) = m True ?T ([(1, take 5 s)], drop 5 s)"
        by (simp add: unfold)
      then have "first_result True htmlDocument ([], s)
          = first_result True ?T ([(1, take 5 s)], drop 5 s)"
        by (simp add: first_result_def)
      with True False show ?thesis
        by (simp add: lazy opening_marker_def add.commute add.left_commute split: option.splits)
    next
      case no: False
      with False show ?thesis
        by (simp add: unfold first_result_def opening_marker_def)
    qed
  qed
qed

lemma document_here_bound:
  assumes "opening_marker s = Some n" "find_ci ''</html>'' (drop n s) = Some k"
  shows "n + k + 7 \<le> length s"
proof -
  from assms(2) have "k + 7 \<le> length (drop n s)"
    using find_ci_bound [of "''</html>''" "drop n s" k] by simp
  then show ?thesis by simp
qed

lemma exec_from_htmlDocument:
  "map_option matched (exec_from True htmlDocument i s) = first_document s"
proof (induction s arbitrary: i)
  case Nil
  show ?case
    by (simp add: exec_from_Nil first_result_htmlDocument opening_marker_def lower_eval)
next
  case (Cons a s)
  show ?case
  proof (cases "document_here (a # s)")
    case None
    then have "first_result True htmlDocument ([], a # s) = None"
      by (auto simp: first_result_htmlDocument document_here_def split: option.splits)
    with None Cons show ?thesis
      by (simp add: exec_from_Cons)
  next
    case (Some d)
    then obtain n k where nk: "opening_marker (a # s) = Some n"
      "find_ci ''</html>'' (drop n (a # s)) = Some k" "d = take (n + k + 7) (a # s)"
      by (auto simp: document_here_def split: option.splits)
    from document_here_bound [OF nk(1,2)] have "n + k + 7 \<le> length (a # s)" .
    then have "length (a # s) - length (drop (n + k + 7) (a # s)) = n + k + 7"
      by simp
    with nk Some show ?thesis
      by (simp add: exec_from_Cons first_result_htmlDocument del: drop_Suc_Cons take_Suc_Cons length_drop)
  qed
qed

lemma m_LazyStar_Any:
  "m ic (LazyStar (Cls AnyChar)) (c, u) = map (\<lambda>n. (c, drop n u)) [0..<Suc (length u)]"
proof (induction u)
  case Nil
  show ?case
    by (simp add: m.simps(6) [of ic _ c "[]"] m.simps(2))
next
  case (Cons a u)
  have "[0..<Suc (Suc (length u))] = 0 # map Suc [0..<Suc (length u)]"
    by (simp add: upt_conv_Cons map_Suc_upt del: upt_Suc)
  then have "map (\<lambda>n. (c, drop n (a # u))) [0..<Suc (length (a # u))]
      = (c, a # u) # map (\<lambda>n. (c, drop n u)) [0..<Suc (length u)]"
    by (simp add: comp_def del: upt_Suc)
  with Cons show ?case
    by (simp add: m.simps(6) [of ic _ c "a # u"] m.simps(2) del: upt_Suc)
qed

lemma concat_map_Nil: "\<forall>x\<in>set xs. g x = [] \<Longrightarrow> concat (map g xs) = []"
  by (induction xs) auto

lemma concat_map_find:
  "(case concat (map (\<lambda>n. if starts_with (drop n u) p then [f n] else []) [0..<Suc (length u)]) of
      [] \<Rightarrow> None | y # _ \<Rightarrow> Some y) = map_option f (find_str p u)"
proof (cases "find_str p u")
  case None
  then have "\<forall>j\<le>length u. \<not> starts_with (drop j u) p"
    by (simp add: find_str_None_iff)
  then have "\<forall>n\<in>set [0..<Suc (length u)]. \<not> starts_with (drop n u) p"
    by (auto simp del: upt_Suc)
  then have "concat (map (\<lambda>n. if starts_with (drop n u) p then [f n] else []) [0..<Suc (length u)]) = []"
    by (intro concat_map_Nil) (simp del: upt_Suc)
  with None show ?thesis
    by (simp only: list.case option.map)
next
  case (Some k)
  then have k: "k \<le> length u" "starts_with (drop k u) p" "\<forall>j<k. \<not> starts_with (drop j u) p"
    by (simp_all add: find_str_Some_iff)
  have "[0..<k + (Suc (length u) - k)] = [0..<k] @ [k..<k + (Suc (length u) - k)]"
    by (rule upt_add_eq_append) simp
  moreover have "k + (Suc (length u) - k) = Suc (length u)"
    using k(1) by simp
  ultimately have "[0..<Suc (length u)] = [0..<k] @ [k..<Suc (length u)]"
    by (simp only:)
  moreover have "[k..<Suc (length u)] = k # [Suc k..<Suc (length u)]"
    using k(1) by (intro upt_conv_Cons) simp
  ultimately have e1: "[0..<Suc (length u)] = [0..<k] @ k # [Suc k..<Suc (length u)]"
    by (simp only:)
  have e2: "concat (map (\<lambda>n. if starts_with (drop n u) p then [f n] else []) [0..<k]) = []"
    using k(3) by (intro concat_map_Nil) simp
  show ?thesis
    by (simp add: e1 e2 k(2) Some del: upt_Suc)
qed

lemma first_result_capture_lazy:
  "first_result False (Seq (Group g (LazyStar (Cls AnyChar))) (Str p)) (c, u)
     = map_option (\<lambda>k. ((g, take k u) # c, drop (k + length p) u)) (find_str p u)"
proof -
  have "m False (Seq (Group g (LazyStar (Cls AnyChar))) (Str p)) (c, u)
      = concat (map (\<lambda>n. if starts_with (drop n u) p
                           then [((g, take (length u - (length u - n)) u) # c, drop (length p) (drop n u))]
                           else [])
                  [0..<Suc (length u)])"
    by (simp add: m.simps(3) m.simps(7) m_LazyStar_Any m.simps(1) str_match_False comp_def
        del: upt_Suc)
  also have "\<dots> = concat (map (\<lambda>n. if starts_with (drop n u) p
                           then [((g, take n u) # c, drop (n + length p) u)] else [])
                  [0..<Suc (length u)])"
    by (intro arg_cong [where f = concat] map_cong refl) (auto simp: add.commute simp del: upt_Suc)
  finally show ?thesis
    unfolding first_result_def by (simp only: concat_map_find)
qed

lemma find_str_dropWhile_None:
  assumes "\<And>a. P a \<Longrightarrow> a \<noteq> hd p" "p \<noteq> []"
  shows "(find_str p (dropWhile P v) = None) = (find_str p v = None)"
proof (induction v)
  case Nil
  show ?case by simp
next
  case (Cons a v)
  show ?case
  proof (cases "P a")
    case True
    then have "\<not> starts_with (a # v) p"
      using assms by (cases p) auto
    with True Cons show ?thesis by simp
  next
    case False
    then show ?thesis by simp
  qed
qed

lemma white_not_backtick: "isWhiteSpace a \<Longrightarrow> a \<noteq> hd fence"
  by (auto simp: isWhiteSpace_def code_def fence_def)

lemma len_fence: "length fence = 3"
  by (simp add: fence_def)

lemma first_result_skip_white:
  "first_result False (Seq (Star (Cls Space)) (Seq (Group g (LazyStar (Cls AnyChar))) (Str fence))) (c, v)
     = map_option (\<lambda>k. ((g, take k (dropWhile isWhiteSpace v)) # c, drop (k + 3) (dropWhile isWhiteSpace v)))
         (find_str fence (dropWhile isWhiteSpace v))"
  (is "first_result False (Seq _ ?T) _ = _")
proof (induction v)
  case Nil
  show ?case
    using first_result_capture_lazy [of g fence c "[]", unfolded len_fence]
    by (simp add: first_result_def m_Seq_Star_Nil)
next
  case (Cons a v)
  have T: "first_result False ?T (c, u)
      = map_option (\<lambda>k. ((g, take k u) # c, drop (k + 3) u)) (find_str fence u)" for u
    by (rule first_result_capture_lazy [of g fence c u, unfolded len_fence])
  show ?case
  proof (cases "isWhiteSpace a")
    case False
    then show ?thesis
      using T [of "a # v"] by (simp add: first_result_def m_Seq_Star_Cons)
  next
    case True
    show ?thesis
    proof (cases "find_str fence (dropWhile isWhiteSpace v)")
      case (Some k)
      with Cons obtain ys where "m False (Seq (Star (Cls Space)) ?T) (c, v)
          = ((g, take k (dropWhile isWhiteSpace v)) # c, drop (k + 3) (dropWhile isWhiteSpace v)) # ys"
        by (auto simp: first_result_Some_iff)
      with True Some show ?thesis
        by (simp add: first_result_def m_Seq_Star_Cons)
    next
      case None
      with Cons have e: "m False (Seq (Star (Cls Space)) ?T) (c, v) = []"
        by (simp add: first_result_None_iff)
      from None have "find_str fence v = None"
        using find_str_dropWhile_None [of isWhiteSpace fence v] white_not_backtick
        by (simp add: fence_def)
      moreover from True have "\<not> starts_with (a # v) fence"
        using white_not_backtick [of a] by (auto simp: fence_def)
      ultimately have "find_str fence (a # v) = None"
        by simp
      then have "m False ?T (c, a # v) = []"
        using T [of "a # v"] by (simp add: first_result_None_iff)
      with True None e show ?thesis
        by (simp add: first_result_def m_Seq_Star_Cons)
    qed
  qed
qed

lemma html_no_backtick:
  assumes "starts_with s ''html''"
  shows "(find_str fence (dropWhile isWhiteSpace s) = None) = (find_str fence (drop 4 s) = None)"
proof -
  from assms obtain r where s: "s = ''html'' @ r"
    by (metis append_take_drop_id starts_with_iff)
  have "dropWhile isWhiteSpace s = s"
    by (simp add: s isWhiteSpace_def code_def)
  then show ?thesis
    by (simp add: s fence_def)
qed

lemma first_result_codeBlock:
  "first_result False codeBlock ([], s) =
     (if starts_with s fence then
        (let a = drop 3 s;
             b = (if starts_with a ''html'' then drop 4 a else a);
             c = dropWhile isWhiteSpace b
         in map_option (\<lambda>k. ([(1, take k c)], drop (k + 3) c)) (find_str fence c))
      else None)"
proof (cases "starts_with s fence")
  case False
  then show ?thesis
    by (simp add: first_result_def codeBlock_def m_Seq_Str str_match_False fence_def)
next
  case True
  let ?R = "Seq (Star (Cls Space)) (Seq (Group 1 (LazyStar (Cls AnyChar))) (Str fence))"
  let ?a = "drop 3 s"
  have R: "first_result False ?R ([], v)
      = map_option (\<lambda>k. ([(1, take k (dropWhile isWhiteSpace v))], drop (k + 3) (dropWhile isWhiteSpace v)))
          (find_str fence (dropWhile isWhiteSpace v))" for v
    by (rule first_result_skip_white)
  have unfold: "m False codeBlock ([], s)
      = (if starts_with ?a ''html'' then m False ?R ([], drop 4 ?a) else []) @ m False ?R ([], ?a)"
    using True
    by (simp add: codeBlock_def m_Seq_Str str_match_False fence_def Opt_def
        m.simps(3) [of False "Alt _ _"] m.simps(4) m.simps(1) eval_nat_numeral)
  show ?thesis
  proof (cases "starts_with ?a ''html''")
    case False
    with True show ?thesis
      using R [of ?a] by (simp add: unfold first_result_def Let_def)
  next
    case html: True
    show ?thesis
    proof (cases "find_str fence (dropWhile isWhiteSpace (drop 4 ?a))")
      case (Some k)
      then obtain ys where "m False ?R ([], drop 4 ?a)
          = ([(1, take k (dropWhile isWhiteSpace (drop 4 ?a)))],
             drop (k + 3) (dropWhile isWhiteSpace (drop 4 ?a))) # ys"
        using R [of "drop 4 ?a"] by (auto simp: first_result_Some_iff)
      with True html Some show ?thesis
        by (simp add: unfold first_result_def Let_def)
    next
      case None
      then have "m False ?R ([], drop 4 ?a) = []"
        using R [of "drop 4 ?a"] by (simp add: first_result_None_iff)
      moreover from None have "find_str fence (drop 4 ?a) = None"
        using find_str_dropWhile_None [of isWhiteSpace fence "drop 4 ?a"] white_not_backtick
        by (simp add: fence_def)
      then have "find_str fence (dropWhile isWhiteSpace ?a) = None"
        using html_no_backtick [OF html] by simp
      then have "m False ?R ([], ?a) = []"
        using R [of ?a] by (simp add: first_result_None_iff)
      ultimately show ?thesis
        using True html None by (simp add: unfold first_result_def Let_def)
    qed
  qed
qed

lemma first_result_codeBlock_fenced:
  "map_option (\<lambda>y. map_of (fst y) 1) (first_result False codeBlock ([], s)) = map_option Some (fenced_here s)"
  by (simp add: first_result_codeBlock fenced_here_def Let_def option.map_comp comp_def
      split: option.splits)

lemma exec_from_codeBlock:
  "map_option (\<lambda>mt. capture mt 1) (exec_from False codeBlock i s) = map_option Some (first_fenced_block s)"
proof (induction s arbitrary: i)
  case Nil
  show ?case
    using first_result_codeBlock_fenced [of "[]"]
    by (simp add: exec_from_Nil fenced_here_def fence_def split: option.splits)
next
  case (Cons a s)
  show ?case
    using first_result_codeBlock_fenced [of "a # s"] Cons [of "Suc i"]
    by (auto simp: exec_from_Cons capture_def split: option.splits)
qed

lemma extractHtmlFromText_eq: "extractHtmlFromText text = Inr (extract_contract text)"
proof (cases "text = []")
  case True
  then show ?thesis
    by (simp add: extractHtmlFromText_def extract_contract_def)
next
  case False
  show ?thesis
  proof (cases "exec True htmlDocument text")
    case (Some mt)
    then have "first_document text = Some (matched mt)"
      using exec_from_htmlDocument [of 0 "text"] by (simp add: exec_def)
    with False Some show ?thesis
      by (simp add: extractHtmlFromText_def extract_contract_def)
  next
    case None
    then have d: "first_document text = None"
      using exec_from_htmlDocument [of 0 "text"] by (simp add: exec_def)
    show ?thesis
    proof (cases "exec False codeBlock text")
      case no: None
      then have "first_fenced_block text = None"
        using exec_from_codeBlock [of 0 "text"] by (simp add: exec_def)
      with False None no d show ?thesis
        by (simp add: extractHtmlFromText_def extract_contract_def)
    next
      case (Some mt)
      then obtain b where "first_fenced_block text = Some b" "capture mt 1 = Some b"
        using exec_from_codeBlock [of 0 "text"] by (cases "first_fenced_block text") (auto simp: exec_def)
      with False None Some d show ?thesis
        by (simp add: extractHtmlFromText_def extract_contract_def)
    qed
  qed
qed

section \<open>Trimming, and texts inside texts\<close>

lemma last_dropWhile: "dropWhile P xs \<noteq> [] \<Longrightarrow> last (dropWhile P xs) = last xs"
  by (induction xs) (auto split: if_splits)

lemma trim_idem: "trim (trim s) = trim s"
proof -
  let ?d = "dropWhile isWhiteSpace s"
  let ?e = "dropWhile isWhiteSpace (rev ?d)"
  have "dropWhile isWhiteSpace (rev ?e) = rev ?e"
  proof (cases "?e = []")
    case True
    show ?thesis by (simp only: True rev.simps dropWhile.simps)
  next
    case False
    have d: "?d \<noteq> []"
    proof
      assume "?d = []"
      then have "?e = []" by (simp only: rev.simps dropWhile.simps)
      with False show False by contradiction
    qed
    from False have "last ?e = last (rev ?d)"
      by (rule last_dropWhile)
    also have "\<dots> = hd ?d"
      by (rule last_rev)
    finally have "hd (rev ?e) = hd ?d"
      by (simp add: hd_rev)
    moreover have "\<not> isWhiteSpace (hd ?d)"
      using d by (rule hd_dropWhile)
    ultimately show ?thesis
      by (simp add: dropWhile_eq_self_iff)
  qed
  then have "rev (dropWhile isWhiteSpace (rev (dropWhile isWhiteSpace (rev ?e))))
      = rev (dropWhile isWhiteSpace (rev (rev ?e)))"
    by (simp only:)
  also have "\<dots> = rev ?e"
    by (simp only: rev_rev_ident dropWhile_idem)
  finally show ?thesis
    by (simp only: trim_def)
qed

lemma trim_inside: "\<exists>pre post. s = pre @ trim s @ post"
proof -
  let ?d = "dropWhile isWhiteSpace s"
  have "rev (dropWhile isWhiteSpace (rev ?d)) @ rev (takeWhile isWhiteSpace (rev ?d))
      = rev (takeWhile isWhiteSpace (rev ?d) @ dropWhile isWhiteSpace (rev ?d))"
    by (simp only: rev_append)
  also have "\<dots> = ?d"
    by (simp only: takeWhile_dropWhile_id rev_rev_ident)
  finally have "trim s @ rev (takeWhile isWhiteSpace (rev ?d)) = ?d"
    by (simp only: trim_def)
  then have "takeWhile isWhiteSpace s @ trim s @ rev (takeWhile isWhiteSpace (rev ?d))
      = takeWhile isWhiteSpace s @ ?d"
    by (simp only:)
  also have "\<dots> = s"
    by (rule takeWhile_dropWhile_id)
  finally have "s = takeWhile isWhiteSpace s @ trim s @ rev (takeWhile isWhiteSpace (rev ?d))"
    by (rule sym)
  then show ?thesis by blast
qed

lemma starts_with_append_mono: "starts_with x p \<Longrightarrow> starts_with (x @ y) p"
  by (auto simp: starts_with_iff)

lemma starts_with_take: "starts_with (take n x) p \<Longrightarrow> starts_with x p"
  by (auto simp: starts_with_iff min_def take_take split: if_splits)

lemma starts_with_take_iff: "length p \<le> n \<Longrightarrow> starts_with (take n x) p = starts_with x p"
  by (auto simp: starts_with_iff min_def take_take)

lemma find_str_append_mono: "find_str p x \<noteq> None \<Longrightarrow> find_str p (x @ y) \<noteq> None"
proof (induction x)
  case Nil
  then show ?case by (cases y) (auto simp: starts_with_iff split: if_splits)
next
  case (Cons a x)
  then show ?case
    using starts_with_append_mono [of "a # x" p y] by (auto split: if_splits)
qed

lemma find_str_None_inside:
  assumes "find_str p (pre @ s @ post) = None"
  shows "find_str p s = None"
proof -
  have "find_str p (pre @ t) = None \<Longrightarrow> find_str p t = None" for t
    by (induction pre) (auto split: if_splits)
  with assms have "find_str p (s @ post) = None" by blast
  then show ?thesis
    using find_str_append_mono [of p s post] by blast
qed

lemma find_str_take_None:
  assumes "find_str p c = Some k" "p \<noteq> []"
  shows "find_str p (take k c) = None"
proof -
  from assms(1) have k: "k \<le> length c" "\<forall>j<k. \<not> starts_with (drop j c) p"
    by (simp_all add: find_str_Some_iff)
  have "\<not> starts_with (drop j (take k c)) p" if "j \<le> length (take k c)" for j
  proof
    assume sw: "starts_with (drop j (take k c)) p"
    then have "length p \<le> k - j"
      using k(1) by (simp add: starts_with_iff min_absorb2)
    with assms(2) have "j < k"
      by (cases p) auto
    moreover from sw have "starts_with (take (k - j) (drop j c)) p"
      by (simp add: drop_take)
    then have "starts_with (drop j c) p"
      by (rule starts_with_take)
    ultimately show False using k(2) by blast
  qed
  then show ?thesis
    by (simp add: find_str_None_iff)
qed

section \<open>The contract of the extractor is idempotent\<close>

lemma opening_marker_append: "opening_marker u = Some n \<Longrightarrow> opening_marker (u @ post) = Some n"
  using markers_exclusive [of "toLowerCase (u @ post)"]
  by (auto simp: opening_marker_def starts_with_append_mono split: if_splits)

lemma opening_marker_bound: "opening_marker u = Some n \<Longrightarrow> n \<le> length u"
  by (auto simp: opening_marker_def starts_with_iff split: if_splits)

lemma document_here_append: "document_here u \<noteq> None \<Longrightarrow> document_here (u @ post) \<noteq> None"
proof -
  assume "document_here u \<noteq> None"
  then obtain n k where nk: "opening_marker u = Some n" "find_ci ''</html>'' (drop n u) = Some k"
    by (auto simp: document_here_def split: option.splits)
  from nk(2) have "find_str ''</html>'' (toLowerCase (drop n u) @ toLowerCase post) \<noteq> None"
    by (intro find_str_append_mono) (simp add: find_ci_def)
  then have "find_ci ''</html>'' (drop n (u @ post)) \<noteq> None"
    using opening_marker_bound [OF nk(1)] by (simp add: find_ci_def)
  with opening_marker_append [OF nk(1), of post] show ?thesis
    by (auto simp: document_here_def split: option.splits)
qed

lemma first_document_None_inside:
  assumes "first_document (pre @ s @ post) = None"
  shows "first_document s = None"
proof -
  have "first_document (pre @ t) = None \<Longrightarrow> first_document t = None" for t
    by (induction pre) (auto split: option.splits)
  with assms have "first_document (s @ post) = None" by blast
  then show ?thesis
  proof (induction s)
    case Nil
    show ?case by simp
  next
    case (Cons a s)
    then have 1: "document_here ((a # s) @ post) = None" and 2: "first_document (s @ post) = None"
      by (auto split: option.splits)
    from 1 have "document_here (a # s) = None"
      using document_here_append [of "a # s" post] by (cases "document_here (a # s)") auto
    with Cons.IH [OF 2] show ?case
      by simp
  qed
qed

lemma document_here_again:
  assumes "document_here u = Some d"
  shows "document_here d = Some d" "d \<noteq> []"
proof -
  from assms obtain n k where nk: "opening_marker u = Some n"
    "find_ci ''</html>'' (drop n u) = Some k" "d = take (n + k + 7) u"
    by (auto simp: document_here_def split: option.splits)
  from document_here_bound [OF nk(1,2)] have len: "n + k + 7 \<le> length u" .
  then have ld: "length d = n + k + 7"
    by (simp add: nk(3))
  then show "d \<noteq> []" by auto
  have n: "n = 15 \<or> n = 5"
    using nk(1) by (auto simp: opening_marker_def split: if_splits)
  have low: "toLowerCase d = take (n + k + 7) (toLowerCase u)"
    by (simp add: nk(3) toLowerCase_take)
  have "opening_marker d = Some n"
  proof (cases "starts_with (toLowerCase u) ''<!doctype html>''")
    case True
    with nk(1) have "n = 15" by (simp add: opening_marker_def)
    with True show ?thesis
      by (simp add: opening_marker_def low starts_with_take_iff)
  next
    case False
    with nk(1) have h: "starts_with (toLowerCase u) ''<html''" "n = 5"
      by (auto simp: opening_marker_def split: if_splits)
    from False have "\<not> starts_with (take (n + k + 7) (toLowerCase u)) ''<!doctype html>''"
      using starts_with_take by blast
    with h show ?thesis
      by (simp add: opening_marker_def low starts_with_take_iff)
  qed
  moreover have "find_ci ''</html>'' (drop n d) = Some k"
  proof -
    let ?X = "toLowerCase (drop n u)"
    from nk(2) have f: "find_str ''</html>'' ?X = Some k"
      by (simp add: find_ci_def)
    note sp = find_str_split [OF f]
    have "take (k + 7) ?X = take (k + 7) (take k ?X @ ''</html>'' @ drop (k + length ''</html>'') ?X)"
      using sp(1) by simp
    also have "\<dots> = take k ?X @ ''</html>''"
      using sp(3) by (simp add: min_absorb2)
    finally have "find_str ''</html>'' (take (k + 7) ?X) = Some k"
      using sp(2) by simp
    moreover have "toLowerCase (drop n d) = take (k + 7) ?X"
      by (simp add: nk(3) toLowerCase_drop toLowerCase_take drop_take add.commute add.left_commute)
    ultimately show ?thesis
      by (simp add: find_ci_def)
  qed
  ultimately show "document_here d = Some d"
    using ld by (simp add: document_here_def)
qed

lemma first_document_here: "first_document s = Some d \<Longrightarrow> \<exists>u. document_here u = Some d"
  by (induction s) (auto split: option.splits)

lemma first_document_again:
  assumes "first_document s = Some d"
  shows "first_document d = Some d" "d \<noteq> []"
proof -
  from first_document_here [OF assms] obtain u where u: "document_here u = Some d" ..
  note a = document_here_again [OF u]
  show "d \<noteq> []" by (rule a(2))
  then obtain x xs where "d = x # xs" by (cases d) auto
  with a(1) show "first_document d = Some d" by simp
qed

lemma html_prefix_no_backtick:
  assumes "starts_with a ''html''"
  shows "(find_str fence (drop 4 a) = None) = (find_str fence a = None)"
proof -
  have len4: "length ''html'' = 4"
    by simp
  from assms have "take (length ''html'') a = ''html''"
    unfolding starts_with_iff by (rule conjunct2)
  then have t: "take 4 a = ''html''"
    by (simp only: len4)
  have "take 4 a @ drop 4 a = a"
    by (rule append_take_drop_id)
  then have r: "''html'' @ drop 4 a = a"
    by (simp only: t)
  have "(find_str fence (''html'' @ drop 4 a) = None) = (find_str fence (drop 4 a) = None)"
    by (simp add: fence_def)
  then show ?thesis
    by (simp only: r)
qed

lemma fenced_here_None_iff:
  "fenced_here u = None \<longleftrightarrow> \<not> starts_with u fence \<or> find_str fence (drop 3 u) = None"
proof (cases "starts_with u fence")
  case False
  then show ?thesis by (simp add: fenced_here_def)
next
  case True
  let ?a = "drop 3 u"
  have w: "(find_str fence (dropWhile isWhiteSpace b) = None) = (find_str fence b = None)" for b
    using find_str_dropWhile_None [of isWhiteSpace fence b] white_not_backtick
    by (simp add: fence_def)
  show ?thesis
  proof (cases "starts_with ?a ''html''")
    case False
    have "(fenced_here u = None) = (find_str fence (dropWhile isWhiteSpace ?a) = None)"
      using True False by (simp add: fenced_here_def Let_def split: option.splits)
    with True show ?thesis
      by (simp only: w simp_thms)
  next
    case html: True
    have "(fenced_here u = None) = (find_str fence (dropWhile isWhiteSpace (drop 4 ?a)) = None)"
      using True html by (simp add: fenced_here_def Let_def split: option.splits)
    with True show ?thesis
      by (simp only: w html_prefix_no_backtick [OF html] simp_thms)
  qed
qed

lemma fenced_here_append: "fenced_here u \<noteq> None \<Longrightarrow> fenced_here (u @ post) \<noteq> None"
proof -
  assume "fenced_here u \<noteq> None"
  then have u: "starts_with u fence" "find_str fence (drop 3 u) \<noteq> None"
    by (simp_all add: fenced_here_None_iff)
  from u(1) have "3 \<le> length u"
    by (simp add: starts_with_iff fence_def)
  then have "drop 3 (u @ post) = drop 3 u @ post"
    by simp
  with u show ?thesis
    using find_str_append_mono [of fence "drop 3 u" post] starts_with_append_mono [of u fence post]
    by (simp add: fenced_here_None_iff)
qed

lemma first_fenced_block_None_inside:
  assumes "first_fenced_block (pre @ s @ post) = None"
  shows "first_fenced_block s = None"
proof -
  have "first_fenced_block (pre @ t) = None \<Longrightarrow> first_fenced_block t = None" for t
    by (induction pre) (auto split: option.splits)
  with assms have "first_fenced_block (s @ post) = None" by blast
  then show ?thesis
  proof (induction s)
    case Nil
    show ?case by simp
  next
    case (Cons a s)
    then have 1: "fenced_here ((a # s) @ post) = None" and 2: "first_fenced_block (s @ post) = None"
      by (auto split: option.splits)
    from 1 have "fenced_here (a # s) = None"
      using fenced_here_append [of "a # s" post] by (cases "fenced_here (a # s)") auto
    with Cons.IH [OF 2] show ?case
      by simp
  qed
qed

lemma no_fence_no_block: "find_str fence s = None \<Longrightarrow> first_fenced_block s = None"
proof (induction s)
  case Nil
  show ?case by simp
next
  case (Cons a s)
  then have "\<not> starts_with (a # s) fence" "find_str fence s = None"
    by (auto split: if_splits)
  moreover from this(1) have "fenced_here (a # s) = None"
    by (simp only: fenced_here_None_iff simp_thms)
  ultimately show ?case
    using Cons.IH by simp
qed

lemma no_marker_no_document:
  "find_ci ''<!doctype html>'' s = None \<Longrightarrow> find_ci ''<html'' s = None \<Longrightarrow> first_document s = None"
proof (induction s)
  case Nil
  show ?case by simp
next
  case (Cons a s)
  then have "\<not> starts_with (toLowerCase (a # s)) ''<!doctype html>''"
    "\<not> starts_with (toLowerCase (a # s)) ''<html''"
    "find_ci ''<!doctype html>'' s = None" "find_ci ''<html'' s = None"
    by (auto simp: find_ci_def toLowerCase_def split: if_splits)
  with Cons.IH show ?case
    by (simp add: document_here_def opening_marker_def)
qed

lemma fenced_block_interior:
  assumes "first_fenced_block s = Some b"
  shows "find_str fence b = None" "\<exists>pre post. s = pre @ b @ post"
proof -
  have "\<exists>u pre. s = pre @ u \<and> fenced_here u = Some b"
    using assms
  proof (induction s)
    case Nil
    then show ?case by simp
  next
    case (Cons a s)
    show ?case
    proof (cases "fenced_here (a # s)")
      case (Some b')
      with Cons.prems have "a # s = [] @ (a # s) \<and> fenced_here (a # s) = Some b" by simp
      then show ?thesis by blast
    next
      case None
      with Cons obtain u pre where "s = pre @ u \<and> fenced_here u = Some b" by auto
      then have "a # s = (a # pre) @ u \<and> fenced_here u = Some b" by simp
      then show ?thesis by blast
    qed
  qed
  then obtain u pre where u: "s = pre @ u" "fenced_here u = Some b" by blast
  let ?a = "drop 3 u"
  let ?b = "if starts_with ?a ''html'' then drop 4 ?a else ?a"
  let ?c = "dropWhile isWhiteSpace ?b"
  from u(2) obtain k where k: "find_str fence ?c = Some k" "b = take k ?c"
    by (auto simp: fenced_here_def Let_def split: if_splits option.splits)
  show "find_str fence b = None"
    using find_str_take_None [OF k(1)] k(2) by (simp add: fence_def)
  have "\<exists>q. u = q @ ?c"
  proof -
    have 1: "u = take 3 u @ ?a"
      by simp
    have 2: "?a = (if starts_with ?a ''html'' then take 4 ?a else []) @ ?b"
      by (cases "starts_with ?a ''html''") (simp_all only: if_True if_False append_take_drop_id append_Nil)
    have 3: "?b = takeWhile isWhiteSpace ?b @ ?c"
      by simp
    have "u = (take 3 u @ (if starts_with ?a ''html'' then take 4 ?a else []) @ takeWhile isWhiteSpace ?b) @ ?c"
      by (subst 1, subst 2, subst 3) (simp only: append_assoc)
    then show ?thesis by blast
  qed
  then obtain q where "u = q @ ?c" ..
  moreover have "?c = b @ drop k ?c"
    by (simp add: k(2))
  ultimately have "s = (pre @ q) @ b @ drop k ?c"
    using u(1) by (simp only: append_assoc)
  then show "\<exists>pre post. s = pre @ b @ post" by blast
qed

lemma extract_contract_fallback:
  assumes "first_document r = None" "find_str fence r = None" "trim r = r"
  shows "extract_contract r = r"
  using assms no_fence_no_block [of r] by (simp add: extract_contract_def)

lemma extract_contract_idem: "extract_contract (extract_contract s) = extract_contract s"
proof (cases "s = []")
  case True
  then show ?thesis by (simp add: extract_contract_def)
next
  case False
  show ?thesis
  proof (cases "first_document s")
    case (Some d)
    from first_document_again [OF Some] False Some show ?thesis
      by (simp add: extract_contract_def)
  next
    case None
    show ?thesis
    proof (cases "first_fenced_block s")
      case (Some b)
      let ?r = "trim b"
      from fenced_block_interior [OF Some] obtain pre post where
        b: "find_str fence b = None" "s = pre @ b @ post" by blast
      from trim_inside [of b] obtain p q where pq: "b = p @ ?r @ q" by blast
      have "find_str fence ?r = None"
        using b(1) pq find_str_None_inside [of fence p ?r q] by simp
      moreover have "s = (pre @ p) @ ?r @ (q @ post)"
        using b(2) pq by simp
      then have "first_document ?r = None"
        using None first_document_None_inside [of "pre @ p" ?r "q @ post"] by simp
      ultimately have "extract_contract ?r = ?r"
        by (intro extract_contract_fallback) (simp_all add: trim_idem)
      with False None Some show ?thesis
        by (simp add: extract_contract_def)
    next
      case no: None
      let ?r = "trim s"
      from trim_inside [of s] obtain p q where pq: "s = p @ ?r @ q" by blast
      have d: "first_document ?r = None"
        using None pq first_document_None_inside [of p ?r q] by simp
      have f: "first_fenced_block ?r = None"
        using no pq first_fenced_block_None_inside [of p ?r q] by simp
      have "extract_contract ?r = ?r"
        using d f by (simp add: extract_contract_def trim_idem)
      with False None no show ?thesis
        by (simp add: extract_contract_def)
    qed
  qed
qed

section \<open>The claims about the extractor\<close>

text \<open>
  C2.  \<open>extractHtmlFromText\<close> keeps the three-tier contract.  The empty text gives the empty
  text.  Otherwise, when an opening marker \<^verbatim>\<open><!DOCTYPE html>\<close> or \<^verbatim>\<open><html\<close> (regardless of case) is
  followed later by \<^verbatim>\<open></html>\<close>, the result is the text from the leftmost such marker through the
  first \<^verbatim>\<open></html>\<close> after it, as it stands in the input.  Otherwise, when there is a fenced
  block, the result is the interior of the first one (after an optional \<^verbatim>\<open>html\<close> tag), trimmed.
  Otherwise the result is the trimmed text; so a text with no marker and no fence gives its
  trimmed self.
\<close>

theorem extractHtmlFromText_three_tiers:
  "extractHtmlFromText text = Inr (extract_contract text)
   \<and> (find_ci ''<!doctype html>'' text = None \<and> find_ci ''<html'' text = None
        \<and> find_str fence text = None \<longrightarrow>
      extractHtmlFromText text = Inr (trim text))"
proof (intro conjI impI)
  show "extractHtmlFromText text = Inr (extract_contract text)"
    by (rule extractHtmlFromText_eq)
next
  assume a: "find_ci ''<!doctype html>'' text = None \<and> find_ci ''<html'' text = None
      \<and> find_str fence text = None"
  then have "first_document text = None" "first_fenced_block text = None"
    by (simp_all add: no_marker_no_document no_fence_no_block)
  then have "extract_contract text = trim text"
    by (simp add: extract_contract_def trim_def)
  then show "extractHtmlFromText text = Inr (trim text)"
    by (simp add: extractHtmlFromText_eq)
qed

theorem extractHtmlFromText_three_tiers_witness:
  "extractHtmlFromText [] = Inr []
   \<and> extractHtmlFromText ''Hi <HTML><p>x</p></Html> bye </html>'' = Inr ''<HTML><p>x</p></Html>''
   \<and> extractHtmlFromText (''Sure: '' @ fence @ ''html  <b>x</b>  '' @ fence @ '' bye'') = Inr ''<b>x</b>''
   \<and> extractHtmlFromText ''  just words  '' = Inr ''just words''"
proof -
  have 1: "extract_contract [] = []"
    by code_simp
  have 2: "extract_contract ''Hi <HTML><p>x</p></Html> bye </html>'' = ''<HTML><p>x</p></Html>''"
    by code_simp
  have 3: "extract_contract (''Sure: '' @ fence @ ''html  <b>x</b>  '' @ fence @ '' bye'') = ''<b>x</b>''"
    by code_simp
  have 4: "find_ci ''<!doctype html>'' ''  just words  '' = None \<and> find_ci ''<html'' ''  just words  '' = None
      \<and> find_str fence ''  just words  '' = None"
    by code_simp
  have 5: "trim ''  just words  '' = ''just words''"
    by code_simp
  note t = extractHtmlFromText_three_tiers
  have a: "extractHtmlFromText [] = Inr []"
    using t [of "[]", THEN conjunct1] by (simp only: 1)
  have b: "extractHtmlFromText ''Hi <HTML><p>x</p></Html> bye </html>'' = Inr ''<HTML><p>x</p></Html>''"
    using t [of "''Hi <HTML><p>x</p></Html> bye </html>''", THEN conjunct1] by (simp only: 2)
  have c: "extractHtmlFromText (''Sure: '' @ fence @ ''html  <b>x</b>  '' @ fence @ '' bye'') = Inr ''<b>x</b>''"
    using t [of "''Sure: '' @ fence @ ''html  <b>x</b>  '' @ fence @ '' bye''", THEN conjunct1]
    by (simp only: 3)
  have d: "extractHtmlFromText ''  just words  '' = Inr ''just words''"
    using t [of "''  just words  ''", THEN conjunct2, THEN mp, OF 4] by (simp only: 5)
  from a b c d show ?thesis
    by (intro conjI)
qed

text \<open>
  C9.  \<open>extractHtmlFromText\<close> is idempotent: its result is a text that it gives back
  unchanged.
\<close>

theorem extractHtmlFromText_idempotent:
  "\<exists>r. extractHtmlFromText s = Inr r \<and> extractHtmlFromText r = Inr r"
proof -
  have "extractHtmlFromText (extract_contract s) = Inr (extract_contract s)"
    by (simp add: extractHtmlFromText_eq extract_contract_idem)
  with extractHtmlFromText_eq [of s] show ?thesis
    by blast
qed

theorem extractHtmlFromText_idempotent_witness:
  "extractHtmlFromText ''<b>x</b>'' = Inr ''<b>x</b>''"
proof -
  have "extractHtmlFromText (fence @ ''html <b>x</b> '' @ fence) = Inr ''<b>x</b>''"
    unfolding extractHtmlFromText_eq by code_simp
  with extractHtmlFromText_idempotent [of "fence @ ''html <b>x</b> '' @ fence"] show ?thesis
    by auto
qed

end
